theory Spec2Isabelle
  imports Complex_Main
begin

section \<open>Data model\<close>

text \<open>
  Coordinates of the game are Python numbers: the player position and the trace are
  integers, the test point of the closure algorithm is a float.  Both are embedded
  in the reals, so one type of point serves every function of \<open>main.py\<close>.

  The one computation whose rounding decides a property stated here is that of
  \<open>xinters\<close> in \<open>point_in_polygon\<close>, which receives float points: there every
  arithmetic operation is followed by the rounding \<open>fl\<close> of IEEE binary64 (to the
  nearest value with 53 significant bits, ties to even, with gradual underflow below
  \<open>2 ^ (- 1022)\<close>).  Overflow to infinity is not part of \<open>fl\<close>; a property that depends
  on the rounded value asks for the intermediate results to be finite.  A Python
  integer of magnitude below \<open>2 ^ 53\<close> is the double of the same value, and sums,
  differences and products of such integers that stay below \<open>2 ^ 53\<close> are exact in
  both.  Comparisons are exact.
\<close>

type_synonym point = "real \<times> real"
type_synonym polygon = "point list"

datatype py_error = IndexError | UnboundLocalError | ZeroDivisionError

definition WIDTH :: nat where
  "WIDTH = 1920"

definition HEIGHT :: nat where
  "HEIGHT = 1080"

subsection \<open>Double precision arithmetic\<close>

text \<open>\<open>rne\<close> rounds to the nearest integer, a tie to the even one.\<close>

definition rne :: "real \<Rightarrow> int" where
  "rne z =
     (let f = \<lfloor>z\<rfloor>
      in if z - of_int f < 1 / 2 then f
         else if z - of_int f > 1 / 2 then f + 1
         else if even f then f else f + 1)"

definition fl :: "real \<Rightarrow> real" where
  "fl v =
     (if v = 0 then 0
      else (let e = max \<lfloor>log 2 \<bar>v\<bar>\<rfloor> (- 1022);
                ulp = 2 powr (of_int (e - 52))
            in of_int (rne (v / ulp)) * ulp))"

definition fadd :: "real \<Rightarrow> real \<Rightarrow> real" where
  "fadd a b = fl (a + b)"

definition fsub :: "real \<Rightarrow> real \<Rightarrow> real" where
  "fsub a b = fl (a - b)"

definition fmul :: "real \<Rightarrow> real \<Rightarrow> real" where
  "fmul a b = fl (a * b)"

definition fdiv :: "real \<Rightarrow> real \<Rightarrow> real" where
  "fdiv a b = fl (a / b)"

section \<open>Utility functions\<close>

subsection \<open>\<open>point_in_polygon\<close>\<close>

text \<open>
  The loop state of \<open>point_in_polygon\<close>: the flag, the previous vertex and the local
  \<open>xinters\<close>, which is unbound (\<open>None\<close>) until its first assignment.
\<close>

record pip_state =
  inside :: bool
  p1 :: point
  xinters :: "real option"

text \<open>
  One iteration of the loop body, for the next vertex \<open>p2\<close>.  The divisor is the
  rounded difference of two doubles that differ, which is not 0
  (\<open>double_diff_nonzero\<close>).
\<close>

definition pip_body :: "point \<Rightarrow> pip_state \<Rightarrow> point \<Rightarrow> py_error + pip_state" where
  "pip_body pt s p2 =
     (let x = fst pt; y = snd pt;
          p1x = fst (p1 s); p1y = snd (p1 s);
          p2x = fst p2; p2y = snd p2
      in
        if y > min p1y p2y then
          if y \<le> max p1y p2y then
            if x \<le> max p1x p2x then
              (let xi = (if p1y \<noteq> p2y
                         then Some (fadd (fdiv (fmul (fsub y p1y) (fsub p2x p1x))
                                               (fsub p2y p1y)) p1x)
                         else xinters s)
               in if p1x = p2x
                  then Inr \<lparr>inside = \<not> inside s, p1 = p2, xinters = xi\<rparr>
                  else (case xi of
                          None \<Rightarrow> Inl UnboundLocalError
                        | Some v \<Rightarrow>
                            if x \<le> v
                            then Inr \<lparr>inside = \<not> inside s, p1 = p2, xinters = xi\<rparr>
                            else Inr \<lparr>inside = inside s, p1 = p2, xinters = xi\<rparr>))
            else Inr (s\<lparr>p1 := p2\<rparr>)
          else Inr (s\<lparr>p1 := p2\<rparr>)
        else Inr (s\<lparr>p1 := p2\<rparr>))"

text \<open>\<open>for i in range(1, n + 1): p2 = polygon[i % n]; ...\<close>\<close>

fun pip_loop :: "point \<Rightarrow> polygon \<Rightarrow> nat list \<Rightarrow> pip_state \<Rightarrow> py_error + pip_state" where
  "pip_loop pt poly [] s = Inr s"
| "pip_loop pt poly (i # is) s =
     (case pip_body pt s (poly ! (i mod length poly)) of
        Inl e \<Rightarrow> Inl e
      | Inr s' \<Rightarrow> pip_loop pt poly is s')"

definition point_in_polygon :: "point \<Rightarrow> polygon \<Rightarrow> py_error + bool" where
  "point_in_polygon pt poly =
     (case poly of
        [] \<Rightarrow> Inl IndexError
      | p0 # _ \<Rightarrow>
          (case pip_loop pt poly [1 ..< length poly + 1]
                  \<lparr>inside = False, p1 = p0, xinters = None\<rparr> of
             Inl e \<Rightarrow> Inl e
           | Inr s \<Rightarrow> Inr (inside s)))"

subsection \<open>\<open>point_to_line_distance\<close>\<close>

definition point_to_line_distance ::
  "real \<Rightarrow> real \<Rightarrow> real \<Rightarrow> real \<Rightarrow> real \<Rightarrow> real \<Rightarrow> real" where
  "point_to_line_distance x y x1 y1 x2 y2 =
     (let A = x - x1; B = y - y1; C = x2 - x1; D = y2 - y1;
          dot = A * C + B * D;
          len_sq = C * C + D * D
      in if len_sq = 0 then sqrt (A * A + B * B)
         else
           (let param = dot / len_sq;
                xx = (if param < 0 then x1 else if param > 1 then x2 else x1 + param * C);
                yy = (if param < 0 then y1 else if param > 1 then y2 else y1 + param * D)
            in sqrt ((x - xx)\<^sup>2 + (y - yy)\<^sup>2)))"

subsection \<open>\<open>calculate_area_percentage\<close>\<close>

text \<open>
  The inner loop \<open>for i in range(len(polygon) - 1): area += ...\<close>, shared with
  \<open>Player.calculate_polygon_area\<close>.  \<open>range\<close> of a negative number is empty, as the
  truncated subtraction on \<open>nat\<close> is.
\<close>

definition shoelace :: "polygon \<Rightarrow> real" where
  "shoelace polygon =
     fold (\<lambda>i area. area + (fst (polygon ! i) * snd (polygon ! (i + 1))
                             - fst (polygon ! (i + 1)) * snd (polygon ! i)))
          [0 ..< length polygon - 1] 0"

definition filled_total :: "polygon list \<Rightarrow> real" where
  "filled_total filled_areas =
     fold (\<lambda>polygon filled.
             if length polygon < 3 then filled
             else filled + \<bar>shoelace polygon\<bar> / 2)
          filled_areas 0"

definition calculate_area_percentage :: "polygon list \<Rightarrow> real \<Rightarrow> py_error + real" where
  "calculate_area_percentage filled_areas total_area =
     (let filled = filled_total filled_areas
      in if total_area = 0 then Inl ZeroDivisionError
         else Inr ((filled / total_area) * 100))"

section \<open>The player\<close>

datatype direction = DirUp | DirDown | DirLeft | DirRight

datatype side = SideTop | SideRight | SideBottom | SideLeft

text \<open>A spark is the dictionary built by \<open>create_spark\<close>.\<close>

record spark =
  spark_x :: real
  spark_y :: real
  spark_dx :: real
  spark_dy :: real
  lifetime :: int
  spark_color_offset :: real

text \<open>
  The fields of \<open>Player\<close>; \<open>self.x\<close> and \<open>self.y\<close> are named \<open>player_x\<close> and
  \<open>player_y\<close>.
\<close>

record player =
  player_x :: real
  player_y :: real
  speed :: real
  thickness :: real
  drawing :: bool
  temp_points :: "point list"
  filled_areas :: "polygon list"
  color_offset :: real
  current_direction :: "direction option"
  sparks :: "spark list"
  boundary_points :: "point list"

definition generate_boundary_points :: "point list" where
  "generate_boundary_points =
     map (\<lambda>i. (real i, 0)) [0 ..< WIDTH]
     @ map (\<lambda>j. (real WIDTH - 1, real j)) [1 ..< HEIGHT]
     @ map (\<lambda>i. (real i, real HEIGHT - 1)) (rev [0 ..< WIDTH - 1])
     @ map (\<lambda>j. (0, real j)) (rev [1 ..< HEIGHT - 1])"

text \<open>\<open>Player.__init__\<close>\<close>

definition Player_init :: player where
  "Player_init =
     \<lparr>player_x = 0, player_y = 0, speed = 4, thickness = 4, drawing = False,
      temp_points = [], filled_areas = [], color_offset = 0,
      current_direction = None, sparks = [],
      boundary_points = generate_boundary_points\<rparr>"

definition near_edge :: "real \<Rightarrow> real \<Rightarrow> polygon \<Rightarrow> nat \<Rightarrow> bool" where
  "near_edge a b area i =
     (point_to_line_distance a b (fst (area ! i)) (snd (area ! i))
        (fst (area ! (i + 1))) (snd (area ! (i + 1))) \<le> 2)"

definition is_on_boundary :: "player \<Rightarrow> real \<Rightarrow> real \<Rightarrow> bool" where
  "is_on_boundary self a b =
     (list_ex (\<lambda>bp. (a, b) = bp) (boundary_points self)
      \<or> list_ex (\<lambda>area. list_ex (near_edge a b area) [0 ..< length area - 1])
           (filled_areas self))"

definition is_valid_move :: "player \<Rightarrow> real \<Rightarrow> real \<Rightarrow> bool" where
  "is_valid_move self new_x new_y =
     (if \<not> is_on_boundary self new_x new_y then
        if drawing self then
          \<not> list_ex (\<lambda>i. temp_points self ! i = (new_x, new_y))
              [0 ..< length (temp_points self) - 5]
        else True
      else True)"

text \<open>
  \<open>create_spark\<close> draws an angle, a speed, a lifetime and a colour offset at random;
  the draws are an argument of the model.
\<close>

definition create_spark :: "real \<times> real \<times> int \<times> real \<Rightarrow> player \<Rightarrow> player" where
  "create_spark draw self =
     (case draw of (angle, spd, life, coff) \<Rightarrow>
        self\<lparr>sparks := sparks self @
               [\<lparr>spark_x = player_x self, spark_y = player_y self,
                 spark_dx = cos angle * spd, spark_dy = sin angle * spd,
                 lifetime = life, spark_color_offset = coff\<rparr>]\<rparr>)"

definition start_drawing :: "player \<Rightarrow> player" where
  "start_drawing self =
     (if \<not> drawing self \<and> is_on_boundary self (player_x self) (player_y self)
      then self\<lparr>drawing := True,
                temp_points := [(player_x self, player_y self)],
                current_direction := None\<rparr>
      else self)"

definition calculate_polygon_area :: "polygon \<Rightarrow> real" where
  "calculate_polygon_area polygon = \<bar>shoelace polygon\<bar> / 2"

subsection \<open>\<open>stop_drawing\<close>: the closure algorithm\<close>

definition get_boundary_side :: "point \<Rightarrow> side option" where
  "get_boundary_side pt =
     (let a = fst pt; b = snd pt; tol = 2
      in if \<bar>b - 0\<bar> < tol then Some SideTop
         else if \<bar>a - (real WIDTH - 1)\<bar> < tol then Some SideRight
         else if \<bar>b - (real HEIGHT - 1)\<bar> < tol then Some SideBottom
         else if \<bar>a - 0\<bar> < tol then Some SideLeft
         else None)"

text \<open>The dictionary \<open>desired_corners\<close>, keyed by two-element frozensets.\<close>

definition desired_corners :: "(side set \<times> point) list" where
  "desired_corners =
     [({SideLeft, SideTop}, (0, 0)),
      ({SideTop, SideRight}, (real WIDTH - 1, 0)),
      ({SideRight, SideBottom}, (real WIDTH - 1, real HEIGHT - 1)),
      ({SideBottom, SideLeft}, (0, real HEIGHT - 1))]"

definition desired_corner_of :: "side option \<Rightarrow> side option \<Rightarrow> point option" where
  "desired_corner_of start_side end_side =
     (case start_side of
        None \<Rightarrow> None
      | Some s \<Rightarrow>
          (case end_side of
             None \<Rightarrow> None
           | Some e \<Rightarrow> if s \<noteq> e then map_of desired_corners {s, e} else None))"

fun find_index_from :: "point list \<Rightarrow> point \<Rightarrow> nat \<Rightarrow> nat option" where
  "find_index_from [] pt i = None"
| "find_index_from (bp # bps) pt i =
     (if \<bar>fst bp - fst pt\<bar> < 1 \<and> \<bar>snd bp - snd pt\<bar> < 1 then Some i
      else find_index_from bps pt (i + 1))"

definition find_index_in_boundary :: "point list \<Rightarrow> point \<Rightarrow> nat option" where
  "find_index_in_boundary bps pt = find_index_from bps pt 0"

text \<open>The two candidate boundary segments, as Python slices of \<open>bp\<close>.\<close>

definition seg1 :: "point list \<Rightarrow> nat \<Rightarrow> nat \<Rightarrow> point list" where
  "seg1 bp start_index end_index =
     (if start_index \<le> end_index
      then take (end_index + 1 - start_index) (drop start_index bp)
      else drop start_index bp @ take (end_index + 1) bp)"

definition seg2 :: "point list \<Rightarrow> nat \<Rightarrow> nat \<Rightarrow> point list" where
  "seg2 bp start_index end_index =
     (if start_index \<le> end_index
      then drop end_index bp @ take (start_index + 1) bp
      else take (start_index + 1 - end_index) (drop end_index bp))"

definition contains_point :: "point list \<Rightarrow> point \<Rightarrow> bool" where
  "contains_point segment pt =
     list_ex (\<lambda>q. \<bar>fst q - fst pt\<bar> < 1 \<and> \<bar>snd q - snd pt\<bar> < 1) segment"

definition chosen_segment ::
  "point list \<Rightarrow> nat \<Rightarrow> nat \<Rightarrow> point option \<Rightarrow> point list" where
  "chosen_segment bp start_index end_index desired_corner =
     (case desired_corner of
        Some c \<Rightarrow>
          if contains_point (seg1 bp start_index end_index) c
          then seg1 bp start_index end_index
          else seg2 bp start_index end_index
      | None \<Rightarrow>
          if length (seg1 bp start_index end_index) < length (seg2 bp start_index end_index)
          then seg1 bp start_index end_index
          else seg2 bp start_index end_index)"

definition test_point :: "point \<Rightarrow> point \<Rightarrow> point option \<Rightarrow> point" where
  "test_point start_point end_point desired_corner =
     (let mid_x = (fst start_point + fst end_point) / 2;
          mid_y = (snd start_point + snd end_point) / 2
      in case desired_corner of
           Some c \<Rightarrow>
             (let vec_x = fst c - mid_x; vec_y = snd c - mid_y;
                  len = sqrt (vec_x\<^sup>2 + vec_y\<^sup>2);
                  offset_x = (if len \<noteq> 0 then (vec_x / len) * 5 else 0);
                  offset_y = (if len \<noteq> 0 then (vec_y / len) * 5 else 0)
              in (mid_x + offset_x, mid_y + offset_y))
         | None \<Rightarrow>
             (let dx = snd end_point - snd start_point;
                  dy = fst start_point - fst end_point;
                  len = sqrt (dx\<^sup>2 + dy\<^sup>2);
                  offset_x = (if len = 0 then 0 else (dx / len) * 5);
                  offset_y = (if len = 0 then 0 else (dy / len) * 5)
              in (mid_x + offset_x, mid_y + offset_y)))"

definition final_polygon :: "point \<Rightarrow> polygon \<Rightarrow> polygon \<Rightarrow> py_error + polygon" where
  "final_polygon tp polygon1 polygon2 =
     (case point_in_polygon tp polygon1 of
        Inl e \<Rightarrow> Inl e
      | Inr True \<Rightarrow> Inr polygon1
      | Inr False \<Rightarrow>
          (case point_in_polygon tp polygon2 of
             Inl e \<Rightarrow> Inl e
           | Inr True \<Rightarrow> Inr polygon2
           | Inr False \<Rightarrow>
               (let area1 = calculate_polygon_area polygon1;
                    area2 = calculate_polygon_area polygon2
                in Inr (if area1 < area2 then polygon1 else polygon2))))"

text \<open>The part of \<open>stop_drawing\<close> after both indices are found.\<close>

definition close_trace :: "player \<Rightarrow> nat \<Rightarrow> nat \<Rightarrow> py_error + player" where
  "close_trace self start_index end_index =
     (let start_point = temp_points self ! 0;
          end_point = last (temp_points self);
          desired_corner =
            desired_corner_of (get_boundary_side start_point) (get_boundary_side end_point);
          chosen = chosen_segment (boundary_points self) start_index end_index desired_corner;
          polygon1 = temp_points self @ rev chosen;
          polygon2 = rev (temp_points self) @ chosen
      in case final_polygon (test_point start_point end_point desired_corner)
                polygon1 polygon2 of
           Inl e \<Rightarrow> Inl e
         | Inr fp \<Rightarrow>
             (case fp of
                [] \<Rightarrow> Inl IndexError
              | q # _ \<Rightarrow>
                  Inr (self\<lparr>filled_areas := filled_areas self @ [fp @ [q]],
                            drawing := False,
                            temp_points := [],
                            current_direction := None,
                            boundary_points := generate_boundary_points\<rparr>)))"

definition stop_drawing :: "player \<Rightarrow> py_error + player" where
  "stop_drawing self =
     (if \<not> drawing self \<or> length (temp_points self) \<le> 2 then Inr self
      else
        (let start_point = temp_points self ! 0;
             end_point = last (temp_points self)
         in case find_index_in_boundary (boundary_points self) start_point of
              None \<Rightarrow>
                Inr (self\<lparr>filled_areas := filled_areas self @ [temp_points self @ [start_point]],
                          drawing := False,
                          temp_points := [],
                          current_direction := None\<rparr>)
            | Some start_index \<Rightarrow>
                (case find_index_in_boundary (boundary_points self) end_point of
                   None \<Rightarrow>
                     Inr (self\<lparr>filled_areas :=
                                 filled_areas self @ [temp_points self @ [start_point]],
                               drawing := False,
                               temp_points := [],
                               current_direction := None\<rparr>)
                 | Some end_index \<Rightarrow> close_trace self start_index end_index)))"

subsection \<open>\<open>move\<close>\<close>

definition new_direction :: "real \<Rightarrow> real \<Rightarrow> direction option" where
  "new_direction dx dy =
     (if dx > 0 then Some DirRight
      else if dx < 0 then Some DirLeft
      else if dy > 0 then Some DirDown
      else if dy < 0 then Some DirUp
      else None)"

definition horizontal :: "direction \<Rightarrow> bool" where
  "horizontal d = (d = DirLeft \<or> d = DirRight)"

definition turn :: "direction option \<Rightarrow> real \<Rightarrow> real \<Rightarrow> direction option" where
  "turn cur dx dy =
     (if dx \<noteq> 0 \<or> dy \<noteq> 0 then
        (case cur of
           None \<Rightarrow> new_direction dx dy
         | Some d \<Rightarrow>
             (case new_direction dx dy of
                None \<Rightarrow> cur
              | Some nd \<Rightarrow>
                  if (horizontal d \<and> \<not> horizontal nd) \<or> (\<not> horizontal d \<and> horizontal nd)
                  then Some nd else cur))
      else cur)"

definition heading :: "direction option \<Rightarrow> real \<Rightarrow> real \<Rightarrow> real \<times> real" where
  "heading cur dx dy =
     (case cur of
        Some DirUp \<Rightarrow> (0, - 1)
      | Some DirDown \<Rightarrow> (0, 1)
      | Some DirLeft \<Rightarrow> (- 1, 0)
      | Some DirRight \<Rightarrow> (1, 0)
      | None \<Rightarrow> (dx, dy))"

text \<open>
  \<open>move\<close>; \<open>roll\<close> is \<open>None\<close> when \<open>random.random() < 0.3\<close> is false, and the draws of
  \<open>create_spark\<close> otherwise.
\<close>

definition move ::
  "real \<Rightarrow> real \<Rightarrow> (real \<times> real \<times> int \<times> real) option \<Rightarrow> player \<Rightarrow> py_error + player" where
  "move dx dy roll self =
     (if drawing self then
        (let s1 = self\<lparr>current_direction := turn (current_direction self) dx dy\<rparr>;
             h = heading (current_direction s1) dx dy;
             new_x = player_x s1 + fst h * speed s1;
             new_y = player_y s1 + snd h * speed s1;
             s2 = (if is_valid_move s1 new_x new_y
                   then (let s' = s1\<lparr>player_x := new_x, player_y := new_y,
                                      temp_points := temp_points s1 @ [(new_x, new_y)]\<rparr>
                         in case roll of None \<Rightarrow> s' | Some draw \<Rightarrow> create_spark draw s')
                   else s1)
         in if is_on_boundary s2 new_x new_y then
              (case temp_points s2 of
                 [] \<Rightarrow> Inl IndexError
               | t0 # _ \<Rightarrow> if (new_x, new_y) \<noteq> t0 then stop_drawing s2 else Inr s2)
            else Inr s2)
      else
        (let new_x = player_x self + dx * speed self;
             new_y = player_y self + dy * speed self
         in if is_on_boundary self new_x new_y
            then Inr (self\<lparr>player_x := new_x, player_y := new_y\<rparr>)
            else Inr self))"

text \<open>
  The states a player can be in: the constructor, followed by any calls of
  \<open>start_drawing\<close>, \<open>move\<close> and \<open>stop_drawing\<close> that return.
\<close>

inductive reachable :: "player \<Rightarrow> bool" where
  reach_init: "reachable Player_init"
| reach_start: "reachable s \<Longrightarrow> reachable (start_drawing s)"
| reach_move: "reachable s \<Longrightarrow> move dx dy roll s = Inr s' \<Longrightarrow> reachable s'"
| reach_stop: "reachable s \<Longrightarrow> stop_drawing s = Inr s' \<Longrightarrow> reachable s'"

section \<open>Notions used to state the properties\<close>

text \<open>The play field is the rectangle from \<open>(0, 0)\<close> to \<open>(WIDTH, HEIGHT)\<close>.\<close>

definition in_play_field :: "point \<Rightarrow> bool" where
  "in_play_field pt =
     (0 \<le> fst pt \<and> fst pt \<le> real WIDTH \<and> 0 \<le> snd pt \<and> snd pt \<le> real HEIGHT)"

text \<open>The closed ring around the outermost pixels of the play field.\<close>

definition full_field :: polygon where
  "full_field = [(0, 0), (1919, 0), (1919, 1079), (0, 1079), (0, 0)]"

text \<open>
  Two states of a drawing that started at \<open>(0, 0)\<close>: after one step down, and after
  one step down and one step right.
\<close>

definition short_trace_player :: player where
  "short_trace_player =
     Player_init\<lparr>player_y := 4, drawing := True, temp_points := [(0, 0), (0, 4)],
                 current_direction := Some DirDown\<rparr>"

definition open_trace_player :: player where
  "open_trace_player =
     Player_init\<lparr>player_x := 4, player_y := 4, drawing := True,
                 temp_points := [(0, 0), (0, 4), (4, 4)],
                 current_direction := Some DirRight\<rparr>"

text \<open>The side across the field.\<close>

fun opposite :: "side \<Rightarrow> side" where
  "opposite SideTop = SideBottom"
| "opposite SideBottom = SideTop"
| "opposite SideLeft = SideRight"
| "opposite SideRight = SideLeft"

subsection \<open>The shape of a trace\<close>

text \<open>
  \<open>axis_step m a b\<close>: \<open>b\<close> is \<open>a\<close> moved by \<open>m\<close> along one axis.  \<open>trace_steps\<close> and
  \<open>trace_starts_on_curve\<close> are the two halves of the trace invariant of the data
  model; \<open>lenient_step\<close> also admits a repeat of the start point \<open>t0\<close>.
\<close>

definition axis_step :: "real \<Rightarrow> point \<Rightarrow> point \<Rightarrow> bool" where
  "axis_step m a b =
     ((fst b = fst a \<and> \<bar>snd b - snd a\<bar> = m) \<or> (snd b = snd a \<and> \<bar>fst b - fst a\<bar> = m))"

definition trace_steps :: "player \<Rightarrow> bool" where
  "trace_steps s = successively (axis_step (speed s)) (temp_points s)"

definition trace_starts_on_curve :: "player \<Rightarrow> bool" where
  "trace_starts_on_curve s =
     (case temp_points s of
        [] \<Rightarrow> False
      | t0 # _ \<Rightarrow> list_ex (\<lambda>bp. bp = t0) (boundary_points s))"

definition lenient_step :: "point \<Rightarrow> real \<Rightarrow> point \<Rightarrow> point \<Rightarrow> bool" where
  "lenient_step t0 m a b = ((b = a \<and> a = t0) \<or> axis_step m a b)"

definition trace_inv :: "player \<Rightarrow> bool" where
  "trace_inv s =
     (speed s = 4 \<and>
      (drawing s \<longrightarrow>
         temp_points s \<noteq> []
         \<and> last (temp_points s) = (player_x s, player_y s)
         \<and> successively (lenient_step (hd (temp_points s)) 4) (temp_points s)
         \<and> (current_direction s = None \<longrightarrow> (\<forall>q \<in> set (temp_points s). q = hd (temp_points s)))
         \<and> is_on_boundary s (fst (hd (temp_points s))) (snd (hd (temp_points s)))))"

subsection \<open>Runs of the player\<close>

text \<open>A run is a sequence of calls of the player's methods, made on the initial state.\<close>

datatype call = StartDrawing | Move real real "(real \<times> real \<times> int \<times> real) option" | StopDrawing

fun run :: "call list \<Rightarrow> player \<Rightarrow> py_error + player" where
  "run [] s = Inr s"
| "run (StartDrawing # cs) s = run cs (start_drawing s)"
| "run (Move dx dy roll # cs) s =
     (case move dx dy roll s of Inl e \<Rightarrow> Inl e | Inr s' \<Rightarrow> run cs s')"
| "run (StopDrawing # cs) s =
     (case stop_drawing s of Inl e \<Rightarrow> Inl e | Inr s' \<Rightarrow> run cs s')"

definition zero_step_calls :: "call list" where
  "zero_step_calls = [StartDrawing, Move 0 0 None]"

definition zero_step_player :: player where
  "zero_step_player = projr (run zero_step_calls Player_init)"

definition edge_start_calls :: "call list" where
  "edge_start_calls =
     [Move 1 0 None, Move 1 0 None, StartDrawing,
      Move 0 1 None, Move 0 1 None, Move (- 1) 0 None, Move (- 1) 0 None,
      Move 1 0 None, StartDrawing]"

definition edge_start_player :: player where
  "edge_start_player = projr (run edge_start_calls Player_init)"

text \<open>The state in which the move that closes an L-shaped trace calls \<open>stop_drawing\<close>.\<close>

definition corner_trace_player :: player where
  "corner_trace_player =
     Player_init\<lparr>player_x := 0, player_y := 8, drawing := True,
                 temp_points := [(8, 0), (8, 4), (8, 8), (4, 8), (0, 8)],
                 current_direction := Some DirLeft\<rparr>"

text \<open>The state one move earlier.\<close>

definition turning_trace_player :: player where
  "turning_trace_player =
     Player_init\<lparr>player_x := 4, player_y := 8, drawing := True,
                 temp_points := [(8, 0), (8, 4), (8, 8), (4, 8)],
                 current_direction := Some DirLeft\<rparr>"

subsection \<open>Crossings, convex rings and bounding boxes\<close>

text \<open>
  \<open>rounded_x_at y a b\<close> is the value the loop of \<open>point_in_polygon\<close> assigns to
  \<open>xinters\<close> for the edge from \<open>a\<close> to \<open>b\<close>, and \<open>crosses pt a b\<close> is the condition
  under which one iteration flips the flag for that edge; \<open>crossings\<close> is the flag
  after a path of edges.  \<open>x_at\<close> and \<open>crosses_exact\<close> are the same without
  rounding.  \<open>cross3 a b c\<close> is the cross product of \<open>b - a\<close> and \<open>c - a\<close>;
  \<open>ring_edges\<close> pairs every vertex of a ring with its successor.
  \<open>convex_ring sg r\<close> says that \<open>r\<close> is a convex polygon with orientation \<open>sg\<close>, and
  \<open>open_ring\<close> drops the closing repeat of the first vertex.
\<close>

definition rounded_x_at :: "real \<Rightarrow> point \<Rightarrow> point \<Rightarrow> real" where
  "rounded_x_at y a b =
     fadd (fdiv (fmul (fsub y (snd a)) (fsub (fst b) (fst a))) (fsub (snd b) (snd a))) (fst a)"

definition crosses :: "point \<Rightarrow> point \<Rightarrow> point \<Rightarrow> bool" where
  "crosses pt a b =
     (snd pt > min (snd a) (snd b) \<and> snd pt \<le> max (snd a) (snd b)
      \<and> fst pt \<le> max (fst a) (fst b)
      \<and> (fst a = fst b \<or> fst pt \<le> rounded_x_at (snd pt) a b))"

definition crosses_exact :: "point \<Rightarrow> point \<Rightarrow> point \<Rightarrow> bool" where
  "crosses_exact pt a b =
     (snd pt > min (snd a) (snd b) \<and> snd pt \<le> max (snd a) (snd b)
      \<and> fst pt \<le> max (fst a) (fst b)
      \<and> (fst a = fst b
           \<or> fst pt \<le> (snd pt - snd a) * (fst b - fst a) / (snd b - snd a) + fst a))"

fun crossings :: "point \<Rightarrow> point \<Rightarrow> point list \<Rightarrow> bool" where
  "crossings pt a [] = False"
| "crossings pt a (b # bs) = (crosses pt a b \<noteq> crossings pt b bs)"

definition cross3 :: "point \<Rightarrow> point \<Rightarrow> point \<Rightarrow> real" where
  "cross3 a b c = (fst b - fst a) * (snd c - snd a) - (snd b - snd a) * (fst c - fst a)"

definition on_segment :: "point \<Rightarrow> point \<Rightarrow> point \<Rightarrow> bool" where
  "on_segment a b c =
     (cross3 a b c = 0
      \<and> min (fst a) (fst b) \<le> fst c \<and> fst c \<le> max (fst a) (fst b)
      \<and> min (snd a) (snd b) \<le> snd c \<and> snd c \<le> max (snd a) (snd b))"

definition ring_edges :: "polygon \<Rightarrow> (point \<times> point) list" where
  "ring_edges r = zip r (rotate1 r)"

definition up_edge :: "real \<Rightarrow> point \<Rightarrow> point \<Rightarrow> bool" where
  "up_edge y a b = (snd a < y \<and> y \<le> snd b)"

text \<open>The abscissa at which the edge from a to b meets the height y.\<close>

definition x_at :: "real \<Rightarrow> point \<Rightarrow> point \<Rightarrow> real" where
  "x_at y a b = (y - snd a) * (fst b - fst a) / (snd b - snd a) + fst a"

text \<open>
  A point strictly outside the bounding box of a polygon is strictly left of all
  its vertices, or strictly right of, above or below all of them.
\<close>

definition left_of_bbox :: "point \<Rightarrow> polygon \<Rightarrow> bool" where
  "left_of_bbox pt poly = list_all (\<lambda>q. fst pt < fst q) poly"

definition beside_bbox :: "point \<Rightarrow> polygon \<Rightarrow> bool" where
  "beside_bbox pt poly =
     (list_all (\<lambda>q. fst q < fst pt) poly
      \<or> list_all (\<lambda>q. snd pt < snd q) poly \<or> list_all (\<lambda>q. snd q < snd pt) poly)"

definition outside_bbox :: "point \<Rightarrow> polygon \<Rightarrow> bool" where
  "outside_bbox pt poly = (left_of_bbox pt poly \<or> beside_bbox pt poly)"

text \<open>
  \<open>no_overflow y a b\<close>: no operation in the computation of \<open>xinters\<close> for the edge
  from \<open>a\<close> to \<open>b\<close> leaves the finite doubles.  \<open>rounding_harmless pt r\<close>: on every edge
  of \<open>r\<close> for which the loop compares \<open>x\<close> with \<open>xinters\<close>, the computation stays
  finite and the comparison has the outcome it has without rounding.
\<close>

definition finite_double :: "real \<Rightarrow> bool" where
  "finite_double z = (\<bar>z\<bar> < 2 ^ 1023)"

definition no_overflow :: "real \<Rightarrow> point \<Rightarrow> point \<Rightarrow> bool" where
  "no_overflow y a b =
     (finite_double (y - snd a) \<and> finite_double (fst b - fst a)
      \<and> finite_double (snd b - snd a)
      \<and> finite_double (fsub y (snd a) * fsub (fst b) (fst a))
      \<and> finite_double (fmul (fsub y (snd a)) (fsub (fst b) (fst a)) / fsub (snd b) (snd a))
      \<and> finite_double
           (fdiv (fmul (fsub y (snd a)) (fsub (fst b) (fst a))) (fsub (snd b) (snd a))
            + fst a))"

definition is_double :: "real \<Rightarrow> bool" where
  "is_double z = (fl z = z)"

definition rectilinear :: "polygon \<Rightarrow> bool" where
  "rectilinear r = list_all (\<lambda>(a, b). fst a = fst b \<or> snd a = snd b) (ring_edges r)"

definition rounding_harmless :: "point \<Rightarrow> polygon \<Rightarrow> bool" where
  "rounding_harmless pt r =
     list_all
       (\<lambda>(a, b). (up_edge (snd pt) a b \<or> up_edge (snd pt) b a)
                  \<and> fst pt \<le> max (fst a) (fst b) \<and> fst a \<noteq> fst b
                  \<longrightarrow> no_overflow (snd pt) a b
                      \<and> (fst pt \<le> rounded_x_at (snd pt) a b) = (fst pt \<le> x_at (snd pt) a b))
       (ring_edges r)"

definition changes :: "('a \<Rightarrow> bool) \<Rightarrow> 'a \<Rightarrow> 'a \<Rightarrow> bool" where
  "changes P u v = (P u \<noteq> P v)"

definition convex_ring :: "real \<Rightarrow> polygon \<Rightarrow> bool" where
  "convex_ring sg r =
     (3 \<le> length r \<and> distinct r
      \<and> list_all (\<lambda>(a, b). list_all (\<lambda>c. 0 \<le> sg * cross3 a b c
                                              \<and> (on_segment a b c \<longrightarrow> c = a \<or> c = b)) r)
           (ring_edges r))"

definition strictly_inside :: "real \<Rightarrow> point \<Rightarrow> polygon \<Rightarrow> bool" where
  "strictly_inside sg pt r = list_all (\<lambda>(a, b). 0 < sg * cross3 a b pt) (ring_edges r)"

definition open_ring :: "polygon \<Rightarrow> polygon" where
  "open_ring poly = (if 1 < length poly \<and> last poly = hd poly then butlast poly else poly)"

text \<open>A closed triangle with a slanted edge, and the polygons and points of two runs.\<close>

definition corner_triangle :: polygon where
  "corner_triangle = [(0, 0), (8, 0), (0, 8), (0, 0)]"

definition wide_triangle :: polygon where
  "wide_triangle = [(- 6, 0), (10, 21), (- 56, 21)]"

definition near_edge_point :: point where
  "near_edge_point = (- 6004799503160663 / 2 ^ 53, 7)"

definition sliver_triangle :: polygon where
  "sliver_triangle = [(1, 0), (3602879701896397 / 2 ^ 55, 1), (2, 1)]"

definition near_corner_point :: point where
  "near_corner_point = (7205759403792793 / 2 ^ 56, 1)"

section \<open>The ray-casting loop\<close>

lemma pip_body_Inr: "\<exists>s'. pip_body pt s p2 = Inr s'"
  by (auto simp: pip_body_def Let_def split: option.splits)

lemma pip_loop_Inr: "\<exists>s'. pip_loop pt poly is s = Inr s'"
proof (induction "is" arbitrary: s)
  case Nil
  show ?case by simp
next
  case (Cons i "is")
  obtain s' where "pip_body pt s (poly ! (i mod length poly)) = Inr s'"
    using pip_body_Inr by blast
  then show ?case using Cons.IH [of s'] by simp
qed

lemma point_in_polygon_Inr:
  assumes "poly \<noteq> []"
  shows "\<exists>b. point_in_polygon pt poly = Inr b"
proof -
  from assms obtain p0 ps where poly: "poly = p0 # ps"
    by (cases poly) auto
  obtain s' where
    "pip_loop pt poly [1 ..< length poly + 1] \<lparr>inside = False, p1 = p0, xinters = None\<rparr> = Inr s'"
    using pip_loop_Inr by blast
  then show ?thesis unfolding point_in_polygon_def poly by simp
qed

lemma pip_body_same_y:
  "pip_body pt \<lparr>inside = f, p1 = (a, c), xinters = xi\<rparr> (b, c)
     = Inr \<lparr>inside = f, p1 = (b, c), xinters = xi\<rparr>"
  by (auto simp: pip_body_def Let_def)

lemma pip_body_fresh:
  "map_sum id inside (pip_body pt (s\<lparr>xinters := v\<rparr>) p2)
     = map_sum id inside (pip_body pt (s\<lparr>xinters := None\<rparr>) p2)"
  by (auto simp: pip_body_def Let_def)

text \<open>
  Claim C4.  In one iteration of the loop of \<open>point_in_polygon\<close>, for every query
  point and every state of the loop: an edge from \<open>(a, c)\<close> to \<open>(b, c)\<close>, whose
  endpoints have the same y-coordinate, leaves the flag as it is; the iteration
  never reads an unbound \<open>xinters\<close>, also when it starts with \<open>xinters\<close> unbound;
  and the flag it computes does not depend on the value \<open>xinters\<close> had when the
  iteration started, so every read follows an assignment of the same iteration.
  Hence neither the loop nor \<open>point_in_polygon\<close> fails on \<open>xinters\<close>, for any
  polygon and any point.
\<close>

theorem point_in_polygon_xinters_defined:
  "pip_body pt \<lparr>inside = f, p1 = (a, c), xinters = xi\<rparr> (b, c)
     = Inr \<lparr>inside = f, p1 = (b, c), xinters = xi\<rparr>
   \<and> pip_body pt (s\<lparr>xinters := None\<rparr>) p2 \<noteq> Inl UnboundLocalError
   \<and> map_sum id inside (pip_body pt (s\<lparr>xinters := v\<rparr>) p2)
       = map_sum id inside (pip_body pt (s\<lparr>xinters := None\<rparr>) p2)
   \<and> pip_loop pt poly is s \<noteq> Inl UnboundLocalError
   \<and> point_in_polygon pt poly \<noteq> Inl UnboundLocalError"
proof -
  have b: "pip_body pt (s\<lparr>xinters := None\<rparr>) p2 \<noteq> Inl UnboundLocalError"
    using pip_body_Inr [of pt "s\<lparr>xinters := None\<rparr>" p2] by auto
  have c: "pip_loop pt poly is s \<noteq> Inl UnboundLocalError"
    using pip_loop_Inr [of pt poly "is" s] by auto
  have d: "point_in_polygon pt poly \<noteq> Inl UnboundLocalError"
  proof (cases poly)
    case Nil
    then show ?thesis by (simp add: point_in_polygon_def)
  next
    case (Cons p0 ps)
    then show ?thesis using point_in_polygon_Inr [of poly pt] by auto
  qed
  show ?thesis using b c d pip_body_same_y pip_body_fresh by blast
qed

theorem point_in_polygon_xinters_defined_witness:
  "pip_body (1, 0) \<lparr>inside = True, p1 = (0, 0), xinters = None\<rparr> (10, 0)
     = Inr \<lparr>inside = True, p1 = (10, 0), xinters = None\<rparr>
   \<and> point_in_polygon (1, 0) [(0, 0), (10, 0), (10, 10)] \<noteq> Inl UnboundLocalError"
  using point_in_polygon_xinters_defined
          [of "(1, 0)" True 0 0 None 10 _ _ _ "[(0, 0), (10, 0), (10, 10)]"]
  by blast

section \<open>Area accounting\<close>

lemma filled_total_snoc:
  "filled_total (fs @ [f]) = filled_total fs + (if length f < 3 then 0 else \<bar>shoelace f\<bar> / 2)"
  by (simp add: filled_total_def)

lemma filled_total_nonneg: "0 \<le> filled_total fs"
proof (induction fs rule: rev_induct)
  case Nil
  show ?case by (simp add: filled_total_def)
next
  case (snoc f fs)
  then show ?case by (simp add: filled_total_snoc)
qed

lemma shoelace_full_field: "shoelace full_field = 4141202"
  by (simp add: shoelace_def full_field_def upt_conv_Cons)

lemma full_field_in_play_field: "list_all in_play_field full_field"
  by (simp add: full_field_def in_play_field_def WIDTH_def HEIGHT_def)

text \<open>
  Claim C1, as amended.  For every list of filled polygons and every positive total
  area, \<open>calculate_area_percentage\<close> returns a number that is at least 0; it is at
  most 100 exactly when the summed shoelace areas of the polygons do not exceed the
  total area.  Nothing in the function clamps the sum, so the bound of 100 is not
  unconditional.
\<close>

theorem calculate_area_percentage_range:
  "0 < total_area \<Longrightarrow>
     \<exists>v. calculate_area_percentage fs total_area = Inr v \<and> 0 \<le> v
         \<and> (v \<le> 100 \<longleftrightarrow> filled_total fs \<le> total_area)"
  by (simp add: calculate_area_percentage_def filled_total_nonneg pos_divide_le_eq)

theorem calculate_area_percentage_range_witness:
  "(0::real) < 1920 * 1080 \<and>
     (\<exists>v. calculate_area_percentage [full_field] (1920 * 1080) = Inr v \<and> 0 \<le> v
         \<and> (v \<le> 100 \<longleftrightarrow> filled_total [full_field] \<le> 1920 * 1080))"
  using calculate_area_percentage_range [of "1920 * 1080" "[full_field]"] by simp

text \<open>
  Claim C1 as stated fails: two copies of the ring around the play field have all
  their vertices in the field, the total area is that of the field, and the
  percentage returned is above 199.
\<close>

theorem calculate_area_percentage_above_100:
  "list_all (list_all in_play_field) [full_field, full_field]
     \<and> (0::real) < 1920 * 1080
     \<and> calculate_area_percentage [full_field, full_field] (1920 * 1080)
         = Inr (2070601 / 10368)
     \<and> \<not> (2070601 / 10368 \<le> (100::real))"
  by (simp add: calculate_area_percentage_def filled_total_def shoelace_full_field
        full_field_in_play_field)
     (simp add: full_field_def)

text \<open>
  Claim C7.  For every list of filled polygons, every further polygon and every
  positive total area, the percentage of the list with the polygon appended is at
  least the percentage of the list.
\<close>

theorem calculate_area_percentage_mono:
  "0 < total_area \<Longrightarrow>
     \<exists>a b. calculate_area_percentage fs total_area = Inr a
          \<and> calculate_area_percentage (fs @ [f]) total_area = Inr b
          \<and> a \<le> b"
  by (simp add: calculate_area_percentage_def filled_total_snoc divide_right_mono)

theorem calculate_area_percentage_mono_witness:
  "(0::real) < 1920 * 1080 \<and>
     (\<exists>a b. calculate_area_percentage [full_field] (1920 * 1080) = Inr a
          \<and> calculate_area_percentage ([full_field] @ [full_field]) (1920 * 1080) = Inr b
          \<and> a \<le> b)"
  using calculate_area_percentage_mono [of "1920 * 1080" "[full_field]" full_field] by simp

section \<open>Distance to a segment\<close>

text \<open>
  Claim C9.  For every point \<open>(x, y)\<close> and every point \<open>(a, b)\<close>, the distance from
  \<open>(x, y)\<close> to the zero-length segment from \<open>(a, b)\<close> to \<open>(a, b)\<close> is the Euclidean
  distance between the two points.
\<close>

theorem point_to_line_distance_zero_length:
  "point_to_line_distance x y a b a b = sqrt ((x - a)\<^sup>2 + (y - b)\<^sup>2)"
  by (simp add: point_to_line_distance_def power2_eq_square Let_def)

theorem point_to_line_distance_zero_length_witness:
  "point_to_line_distance 3 4 0 0 0 0 = 5"
  using point_to_line_distance_zero_length [of 3 4 0 0] by simp

section \<open>Stopping a drawing\<close>

text \<open>
  Claim C10.  When \<open>drawing\<close> is false or the trace has at most 2 points,
  \<open>stop_drawing\<close> returns the player state it was given: every field is unchanged;
  in particular a drawing with 2 or fewer trace points stays a drawing and keeps
  its trace.
\<close>

theorem stop_drawing_short_trace_noop:
  "\<not> drawing self \<or> length (temp_points self) \<le> 2 \<Longrightarrow> stop_drawing self = Inr self"
  by (auto simp: stop_drawing_def)

text \<open>
  Claim C8.  When \<open>stop_drawing\<close> runs past its guard (\<open>drawing\<close> is true and the
  trace has more than 2 points) and the start or the end of the trace has no
  boundary index, it returns normally, with the trace followed by its start point
  appended to \<open>filled_areas\<close>, an empty trace and \<open>drawing\<close> false.
\<close>

theorem stop_drawing_fallback:
  "drawing self \<Longrightarrow> 2 < length (temp_points self) \<Longrightarrow>
     find_index_in_boundary (boundary_points self) (temp_points self ! 0) = None
       \<or> find_index_in_boundary (boundary_points self) (last (temp_points self)) = None \<Longrightarrow>
     stop_drawing self =
       Inr (self\<lparr>filled_areas :=
                    filled_areas self @ [temp_points self @ [temp_points self ! 0]],
                 drawing := False, temp_points := [], current_direction := None\<rparr>)"
  by (auto simp: stop_drawing_def Let_def split: option.splits)

theorem stop_drawing_short_trace_noop_witness:
  "drawing short_trace_player \<and> length (temp_points short_trace_player) \<le> 2
     \<and> stop_drawing short_trace_player = Inr short_trace_player"
  using stop_drawing_short_trace_noop [of short_trace_player]
  by (simp add: short_trace_player_def)

lemma find_index_from_None:
  "find_index_from bps pt i = None \<longleftrightarrow>
     (\<forall>b \<in> set bps. \<not> (\<bar>fst b - fst pt\<bar> < 1 \<and> \<bar>snd b - snd pt\<bar> < 1))"
  by (induction bps arbitrary: i) auto

lemma find_index_in_boundary_None:
  "find_index_in_boundary bps pt = None \<longleftrightarrow>
     (\<forall>b \<in> set bps. \<not> (\<bar>fst b - fst pt\<bar> < 1 \<and> \<bar>snd b - snd pt\<bar> < 1))"
  by (simp add: find_index_in_boundary_def find_index_from_None)

lemma no_boundary_index_4_4:
  "find_index_in_boundary generate_boundary_points (4, 4) = None"
  by (auto simp: find_index_in_boundary_None generate_boundary_points_def
        WIDTH_def HEIGHT_def)

theorem stop_drawing_fallback_witness:
  "drawing open_trace_player \<and> 2 < length (temp_points open_trace_player)
   \<and> (find_index_in_boundary (boundary_points open_trace_player)
          (temp_points open_trace_player ! 0) = None
      \<or> find_index_in_boundary (boundary_points open_trace_player)
          (last (temp_points open_trace_player)) = None)
   \<and> stop_drawing open_trace_player =
       Inr (open_trace_player\<lparr>filled_areas := [[(0, 0), (0, 4), (4, 4), (0, 0)]],
              drawing := False, temp_points := [], current_direction := None\<rparr>)"
  using stop_drawing_fallback [of open_trace_player] no_boundary_index_4_4
  by (simp add: open_trace_player_def Player_init_def)

subsection \<open>The closure never fails\<close>

lemma final_polygon_cases:
  assumes "polygon1 \<noteq> []" "polygon2 \<noteq> []"
  shows "final_polygon tp polygon1 polygon2 = Inr polygon1
       \<or> final_polygon tp polygon1 polygon2 = Inr polygon2"
proof -
  obtain b1 where b1: "point_in_polygon tp polygon1 = Inr b1"
    using point_in_polygon_Inr [OF assms(1)] by blast
  obtain b2 where b2: "point_in_polygon tp polygon2 = Inr b2"
    using point_in_polygon_Inr [OF assms(2)] by blast
  show ?thesis
    by (cases b1; cases b2) (simp_all add: final_polygon_def b1 b2 Let_def)
qed

lemma close_trace_result:
  assumes "temp_points self \<noteq> []"
  shows "\<exists>fp. (fp = temp_points self @ rev (chosen_segment (boundary_points self) si ei
                       (desired_corner_of (get_boundary_side (temp_points self ! 0))
                          (get_boundary_side (last (temp_points self)))))
              \<or> fp = rev (temp_points self) @ chosen_segment (boundary_points self) si ei
                       (desired_corner_of (get_boundary_side (temp_points self ! 0))
                          (get_boundary_side (last (temp_points self)))))
          \<and> close_trace self si ei =
              Inr (self\<lparr>filled_areas := filled_areas self @ [fp @ [hd fp]],
                        drawing := False, temp_points := [], current_direction := None,
                        boundary_points := generate_boundary_points\<rparr>)"
proof -
  let ?dc = "desired_corner_of (get_boundary_side (temp_points self ! 0))
                          (get_boundary_side (last (temp_points self)))"
  let ?ch = "chosen_segment (boundary_points self) si ei ?dc"
  let ?p1 = "temp_points self @ rev ?ch"
  let ?p2 = "rev (temp_points self) @ ?ch"
  let ?tp = "test_point (temp_points self ! 0) (last (temp_points self)) ?dc"
  have ne: "?p1 \<noteq> []" "?p2 \<noteq> []" using assms by simp_all
  from final_polygon_cases [OF ne, of ?tp]
  consider "final_polygon ?tp ?p1 ?p2 = Inr ?p1" | "final_polygon ?tp ?p1 ?p2 = Inr ?p2"
    by blast
  then show ?thesis
  proof cases
    case 1
    obtain q qs where q: "?p1 = q # qs" using ne(1) by (cases ?p1) auto
    have "close_trace self si ei =
              Inr (self\<lparr>filled_areas := filled_areas self @ [?p1 @ [hd ?p1]],
                        drawing := False, temp_points := [], current_direction := None,
                        boundary_points := generate_boundary_points\<rparr>)"
      unfolding close_trace_def Let_def 1 using q by simp
    then show ?thesis by blast
  next
    case 2
    obtain q qs where q: "?p2 = q # qs" using ne(2) by (cases ?p2) auto
    have "close_trace self si ei =
              Inr (self\<lparr>filled_areas := filled_areas self @ [?p2 @ [hd ?p2]],
                        drawing := False, temp_points := [], current_direction := None,
                        boundary_points := generate_boundary_points\<rparr>)"
      unfolding close_trace_def Let_def 2 using q by simp
    then show ?thesis by blast
  qed
qed

text \<open>
  Past the guard, \<open>stop_drawing\<close> returns a state whose new polygon starts with the
  trace or with the reversed trace; the boundary is kept (fallback) or generated
  afresh.
\<close>

lemma stop_drawing_long:
  assumes "drawing self" "2 < length (temp_points self)"
  shows "\<exists>fp bp rest.
           stop_drawing self =
              Inr (self\<lparr>filled_areas := filled_areas self @ [fp],
                        drawing := False, temp_points := [], current_direction := None,
                        boundary_points := bp\<rparr>)
           \<and> (bp = boundary_points self \<or> bp = generate_boundary_points)
           \<and> (fp = temp_points self @ rest \<or> fp = rev (temp_points self) @ rest)"
proof -
  have ne: "temp_points self \<noteq> []" using assms(2) by auto
  let ?fb = "self\<lparr>filled_areas := filled_areas self @ [temp_points self @ [temp_points self ! 0]],
                  drawing := False, temp_points := [], current_direction := None\<rparr>"
  have fb: "?fb = self\<lparr>filled_areas := filled_areas self @ [temp_points self @ [temp_points self ! 0]],
                  drawing := False, temp_points := [], current_direction := None,
                  boundary_points := boundary_points self\<rparr>"
    by simp
  show ?thesis
  proof (cases "find_index_in_boundary (boundary_points self) (temp_points self ! 0)")
    case None
    then have "stop_drawing self = Inr ?fb"
      using assms by (simp add: stop_drawing_def Let_def)
    then show ?thesis using fb by metis
  next
    case (Some si)
    note si = this
    show ?thesis
    proof (cases "find_index_in_boundary (boundary_points self) (last (temp_points self))")
      case None
      then have "stop_drawing self = Inr ?fb"
        using assms si by (simp add: stop_drawing_def Let_def)
      then show ?thesis using fb by metis
    next
      case (Some ei)
      have "stop_drawing self = close_trace self si ei"
        using assms si Some by (simp add: stop_drawing_def Let_def)
      moreover obtain fp where
        "fp = temp_points self @ rev (chosen_segment (boundary_points self) si ei
                       (desired_corner_of (get_boundary_side (temp_points self ! 0))
                          (get_boundary_side (last (temp_points self)))))
         \<or> fp = rev (temp_points self) @ chosen_segment (boundary_points self) si ei
                       (desired_corner_of (get_boundary_side (temp_points self ! 0))
                          (get_boundary_side (last (temp_points self))))"
        "close_trace self si ei =
              Inr (self\<lparr>filled_areas := filled_areas self @ [fp @ [hd fp]],
                        drawing := False, temp_points := [], current_direction := None,
                        boundary_points := generate_boundary_points\<rparr>)"
        using close_trace_result [OF ne, of si ei] by blast
      ultimately show ?thesis by (metis append.assoc)
    qed
  qed
qed

text \<open>
  Claim C2, as amended.  For every player state with \<open>drawing\<close> true and more than
  2 trace points, \<open>stop_drawing\<close> returns normally, and in the state it returns the
  trace is empty and \<open>drawing\<close> is false.  (With at most 2 trace points the guard of
  \<open>stop_drawing\<close> returns at once and the drawing goes on.)
\<close>

theorem stop_drawing_consumes_trace:
  "drawing self \<Longrightarrow> 2 < length (temp_points self) \<Longrightarrow>
     \<exists>s'. stop_drawing self = Inr s' \<and> temp_points s' = [] \<and> \<not> drawing s'"
  using stop_drawing_long [of self] by auto

theorem stop_drawing_consumes_trace_witness:
  "drawing open_trace_player \<and> 2 < length (temp_points open_trace_player)
   \<and> (\<exists>s'. stop_drawing open_trace_player = Inr s' \<and> temp_points s' = [] \<and> \<not> drawing s')"
  using stop_drawing_consumes_trace [of open_trace_player]
  by (simp add: open_trace_player_def)

text \<open>
  Claim C2 as stated fails: in the state of a drawing that has made one step from
  \<open>(0, 0)\<close> to \<open>(0, 4)\<close>, \<open>stop_drawing\<close> returns the state unchanged, with \<open>drawing\<close>
  still true and both trace points kept.
\<close>

theorem stop_drawing_keeps_short_trace:
  "drawing short_trace_player
   \<and> stop_drawing short_trace_player = Inr short_trace_player
   \<and> temp_points short_trace_player = [(0, 0), (0, 4)]"
  by (simp add: stop_drawing_def short_trace_player_def)

section \<open>The boundary and the closing arc\<close>

lemma length_generate_boundary_points: "length generate_boundary_points = 5996"
  by (simp add: generate_boundary_points_def WIDTH_def HEIGHT_def)

lemma set_generate_boundary_points:
  "(a, b) \<in> set generate_boundary_points \<longleftrightarrow>
     (b = 0 \<and> a \<in> \<nat> \<and> a < 1920) \<or> (a = 1919 \<and> b \<in> \<nat> \<and> 1 \<le> b \<and> b < 1080)
     \<or> (b = 1079 \<and> a \<in> \<nat> \<and> a < 1919) \<or> (a = 0 \<and> b \<in> \<nat> \<and> 1 \<le> b \<and> b < 1079)"
  (is "?L \<longleftrightarrow> ?R")
proof
  assume ?L
  then show ?R
    by (auto simp: generate_boundary_points_def WIDTH_def HEIGHT_def)
next
  assume ?R
  then consider "b = 0 \<and> a \<in> \<nat> \<and> a < 1920" | "a = 1919 \<and> b \<in> \<nat> \<and> 1 \<le> b \<and> b < 1080"
    | "b = 1079 \<and> a \<in> \<nat> \<and> a < 1919" | "a = 0 \<and> b \<in> \<nat> \<and> 1 \<le> b \<and> b < 1079" by blast
  then show ?L
  proof cases
    case 1
    then obtain i where "a = real i" by (auto simp: Nats_def)
    with 1 show ?thesis by (auto simp: generate_boundary_points_def WIDTH_def HEIGHT_def)
  next
    case 2
    then obtain i where "b = real i" by (auto simp: Nats_def)
    with 2 show ?thesis by (auto simp: generate_boundary_points_def WIDTH_def HEIGHT_def)
  next
    case 3
    then obtain i where "a = real i" by (auto simp: Nats_def)
    with 3 show ?thesis by (auto simp: generate_boundary_points_def WIDTH_def HEIGHT_def)
  next
    case 4
    then obtain i where "b = real i" by (auto simp: Nats_def)
    with 4 show ?thesis by (auto simp: generate_boundary_points_def WIDTH_def HEIGHT_def)
  qed
qed

lemma desired_corner_of_iff:
  "desired_corner_of sa sb \<noteq> None \<longleftrightarrow>
     (\<exists>a b. sa = Some a \<and> sb = Some b \<and> a \<noteq> b \<and> b \<noteq> opposite a)"
  by (cases sa; cases sb; (cases "the sa")?; (cases "the sb")?)
     (auto simp: desired_corner_of_def desired_corners_def doubleton_eq_iff)

lemma desired_corner_on_boundary:
  "desired_corner_of sa sb = Some c \<Longrightarrow> c \<in> set generate_boundary_points"
  by (cases c)
     (auto simp: desired_corner_of_def desired_corners_def set_generate_boundary_points
        WIDTH_def HEIGHT_def split: option.splits if_splits)

lemma nth_in_take: "k < m \<Longrightarrow> k < length xs \<Longrightarrow> xs ! k \<in> set (take m xs)"
  by (metis in_set_conv_nth length_take min_less_iff_conj nth_take)

lemma nth_in_drop: "m \<le> k \<Longrightarrow> k < length xs \<Longrightarrow> xs ! k \<in> set (drop m xs)"
proof -
  assume a: "m \<le> k" "k < length xs"
  then have "drop m xs ! (k - m) = xs ! k" "k - m < length (drop m xs)" by simp_all
  then show ?thesis by (metis nth_mem)
qed

lemma nth_in_slice:
  "a \<le> k \<Longrightarrow> k < b \<Longrightarrow> k < length xs \<Longrightarrow> xs ! k \<in> set (take (b - a) (drop a xs))"
proof -
  assume a: "a \<le> k" "k < b" "k < length xs"
  then have "take (b - a) (drop a xs) ! (k - a) = xs ! k"
    "k - a < length (take (b - a) (drop a xs))" by (simp_all add: diff_less_mono)
  then show ?thesis by (metis nth_mem)
qed

lemma set_seg1_seg2:
  assumes "si < length bp" "ei < length bp" "c \<in> set bp"
  shows "c \<in> set (seg1 bp si ei) \<union> set (seg2 bp si ei)"
proof -
  from assms(3) obtain k where k: "k < length bp" "c = bp ! k"
    by (auto simp: in_set_conv_nth)
  show ?thesis
  proof (cases "si \<le> ei")
    case True
    consider "k < si" | "si \<le> k" "k \<le> ei" | "ei < k" by linarith
    then show ?thesis
    proof cases
      case 1
      then show ?thesis using True k by (simp add: seg2_def nth_in_take)
    next
      case 2
      then show ?thesis using True k by (simp add: seg1_def nth_in_slice)
    next
      case 3
      then show ?thesis using True k by (simp add: seg2_def nth_in_drop)
    qed
  next
    case False
    consider "k \<le> ei" | "ei < k" "k \<le> si" | "si < k" by linarith
    then show ?thesis
    proof cases
      case 1
      then show ?thesis using False k by (simp add: seg1_def nth_in_take)
    next
      case 2
      then show ?thesis using False k by (simp add: seg2_def nth_in_slice)
    next
      case 3
      then show ?thesis using False k by (simp add: seg1_def nth_in_drop)
    qed
  qed
qed

lemma contains_point_member: "c \<in> set segment \<Longrightarrow> contains_point segment c"
  by (auto simp: contains_point_def list_ex_iff intro!: bexI [of _ c])

lemma chosen_segment_corner:
  assumes "si < length bp" "ei < length bp" "c \<in> set bp"
  shows "contains_point (chosen_segment bp si ei (Some c)) c"
proof (cases "contains_point (seg1 bp si ei) c")
  case True
  then show ?thesis by (simp add: chosen_segment_def)
next
  case False
  then have "c \<notin> set (seg1 bp si ei)" using contains_point_member by blast
  then have "c \<in> set (seg2 bp si ei)" using set_seg1_seg2 [OF assms] by blast
  then show ?thesis using False by (simp add: chosen_segment_def contains_point_member)
qed

lemma find_index_from_first:
  "k < length bps \<Longrightarrow> \<bar>fst (bps ! k) - fst pt\<bar> < 1 \<and> \<bar>snd (bps ! k) - snd pt\<bar> < 1 \<Longrightarrow>
   (\<forall>j<k. \<not> (\<bar>fst (bps ! j) - fst pt\<bar> < 1 \<and> \<bar>snd (bps ! j) - snd pt\<bar> < 1)) \<Longrightarrow>
   find_index_from bps pt i = Some (i + k)"
proof (induction bps arbitrary: k i)
  case Nil
  then show ?case by simp
next
  case (Cons b bps)
  show ?case
  proof (cases k)
    case 0
    then show ?thesis using Cons.prems by simp
  next
    case (Suc k')
    have nb: "\<not> (\<bar>fst b - fst pt\<bar> < 1 \<and> \<bar>snd b - snd pt\<bar> < 1)"
      using Cons.prems(3) Suc by (metis nth_Cons_0 zero_less_Suc)
    have "find_index_from bps pt (i + 1) = Some (i + 1 + k')"
    proof (rule Cons.IH)
      show "k' < length bps" using Cons.prems(1) Suc by simp
      show "\<bar>fst (bps ! k') - fst pt\<bar> < 1 \<and> \<bar>snd (bps ! k') - snd pt\<bar> < 1"
        using Cons.prems(2) Suc by simp
      show "\<forall>j<k'. \<not> (\<bar>fst (bps ! j) - fst pt\<bar> < 1 \<and> \<bar>snd (bps ! j) - snd pt\<bar> < 1)"
        using Cons.prems(3) Suc by (metis Suc_less_eq nth_Cons_Suc)
    qed
    then show ?thesis using nb Suc by simp
  qed
qed

lemma find_index_from_Some:
  "find_index_from bps pt i = Some k \<Longrightarrow> i \<le> k \<and> k < i + length bps"
  by (induction bps arbitrary: i) (auto split: if_splits; fastforce)+

lemma find_index_in_boundary_less:
  "find_index_in_boundary bps pt = Some k \<Longrightarrow> k < length bps"
  using find_index_from_Some [of bps pt 0 k] by (simp add: find_index_in_boundary_def)

lemma gbp_nth_top:
  "j < 1920 \<Longrightarrow> generate_boundary_points ! j = (real j, 0)"
  by (simp add: generate_boundary_points_def WIDTH_def HEIGHT_def nth_append)

lemma gbp_nth_right:
  assumes "1920 \<le> j" "j < 2999"
  shows "generate_boundary_points ! j = (1919, real (j - 1919))"
proof -
  have "j - 1920 < 1079" "\<not> j < 1920" "1 + (j - 1920) = j - 1919" using assms by linarith+
  then show ?thesis
    by (simp add: generate_boundary_points_def WIDTH_def HEIGHT_def nth_append)
qed

lemma gbp_nth_bottom:
  assumes "2999 \<le> j" "j < 4918"
  shows "generate_boundary_points ! j = (real (4917 - j), 1079)"
proof -
  have "\<not> j < 1920" "\<not> j - 1920 < 1079" "j - 1920 - 1079 < 1919" "j - 1920 - 1079 = j - 2999"
    "1919 - Suc (j - 2999) = 4917 - j"
    using assms by linarith+
  then show ?thesis
    by (simp add: generate_boundary_points_def WIDTH_def HEIGHT_def nth_append rev_nth)
qed

lemma gbp_nth_left:
  assumes "4918 \<le> j" "j < 5996"
  shows "generate_boundary_points ! j = (0, real (5996 - j))"
proof -
  have "\<not> j < 1920" "\<not> j - 1920 < 1079" "\<not> j - 1920 - 1079 < 1919"
    "j - 1920 - 1079 - 1919 = j - 4918" "j - 4918 < 1078"
    "1 + (1078 - Suc (j - 4918)) = 5996 - j"
    using assms by linarith+
  then show ?thesis
    by (simp add: generate_boundary_points_def WIDTH_def HEIGHT_def nth_append rev_nth)
qed

lemmas gbp_nth = gbp_nth_top gbp_nth_right gbp_nth_bottom gbp_nth_left

lemma gbp_region:
  assumes "(j::nat) < 5996"
  obtains "j < 1920" | "1920 \<le> j" "j < 2999" | "2999 \<le> j" "j < 4918" | "4918 \<le> j" "j < 5996"
  using assms by linarith

lemma gbp_not_near:
  assumes "j < 5996" "k < 5996" "j \<noteq> k"
  shows "\<not> (\<bar>fst (generate_boundary_points ! j) - fst (generate_boundary_points ! k)\<bar> < 1
           \<and> \<bar>snd (generate_boundary_points ! j) - snd (generate_boundary_points ! k)\<bar> < 1)"
proof -
  have r: "\<bar>real a - real b\<bar> < 1 \<longleftrightarrow> a = b" for a b :: nat
    by linarith
  show ?thesis
    using assms(1)
  proof (cases rule: gbp_region)
    case 1
    note j = this
    show ?thesis using assms(2)
    proof (cases rule: gbp_region)
      case 1 then show ?thesis using j assms(3) by (simp add: gbp_nth r)
    next
      case 2 then show ?thesis using j by (simp add: gbp_nth)
    next
      case 3 then show ?thesis using j by (simp add: gbp_nth)
    next
      case 4 then show ?thesis using j by (simp add: gbp_nth)
    qed
  next
    case 2
    note j = this
    show ?thesis using assms(2)
    proof (cases rule: gbp_region)
      case 1 then show ?thesis using j by (simp add: gbp_nth)
    next
      case 2 then show ?thesis using j assms(3) by (simp add: gbp_nth r)
    next
      case 3
      then have "real (4917 - k) \<le> 1918" by simp
      then show ?thesis using j 3 by (simp add: gbp_nth)
    next
      case 4 then show ?thesis using j by (simp add: gbp_nth)
    qed
  next
    case 3
    note j = this
    show ?thesis using assms(2)
    proof (cases rule: gbp_region)
      case 1 then show ?thesis using j by (simp add: gbp_nth)
    next
      case 2
      have "real (4917 - j) \<le> 1918" using j by simp
      then show ?thesis using j 2 by (simp add: gbp_nth)
    next
      case 3 then show ?thesis using j assms(3) by (simp add: gbp_nth r)
    next
      case 4
      then have "real (5996 - k) \<le> 1078" by simp
      then show ?thesis using j 4 by (simp add: gbp_nth)
    qed
  next
    case 4
    note j = this
    show ?thesis using assms(2)
    proof (cases rule: gbp_region)
      case 1 then show ?thesis using j by (simp add: gbp_nth)
    next
      case 2 then show ?thesis using j by (simp add: gbp_nth)
    next
      case 3
      have "real (5996 - j) \<le> 1078" using j by simp
      then show ?thesis using j 3 by (simp add: gbp_nth)
    next
      case 4 then show ?thesis using j assms(3) by (simp add: gbp_nth r)
    qed
  qed
qed

lemma gbp_index:
  assumes "k < 5996"
  shows "find_index_in_boundary generate_boundary_points (generate_boundary_points ! k) = Some k"
proof -
  have "find_index_from generate_boundary_points (generate_boundary_points ! k) 0 = Some (0 + k)"
  proof (rule find_index_from_first)
    show "k < length generate_boundary_points"
      using assms by (simp add: length_generate_boundary_points)
    show "\<bar>fst (generate_boundary_points ! k) - fst (generate_boundary_points ! k)\<bar> < 1 \<and>
      \<bar>snd (generate_boundary_points ! k) - snd (generate_boundary_points ! k)\<bar> < 1"
      by simp
    show "\<forall>j<k. \<not> (\<bar>fst (generate_boundary_points ! j) - fst (generate_boundary_points ! k)\<bar> < 1 \<and>
      \<bar>snd (generate_boundary_points ! j) - snd (generate_boundary_points ! k)\<bar> < 1)"
      using gbp_not_near [OF _ assms] assms by (metis less_trans nat_neq_iff)
  qed
  then show ?thesis by (simp add: find_index_in_boundary_def)
qed

lemma boundary_index_8_0:
  "find_index_in_boundary generate_boundary_points (8, 0) = Some 8"
  using gbp_index [of 8] by (simp add: gbp_nth)

lemma boundary_index_0_8:
  "find_index_in_boundary generate_boundary_points (0, 8) = Some 5988"
  using gbp_index [of 5988] by (simp add: gbp_nth)

lemma boundary_index_100_0:
  "find_index_in_boundary generate_boundary_points (100, 0) = Some 100"
  using gbp_index [of 100] by (simp add: gbp_nth)

lemma boundary_index_100_1079:
  "find_index_in_boundary generate_boundary_points (100, 1079) = Some 4817"
  using gbp_index [of 4817] by (simp add: gbp_nth)

lemma get_boundary_side_examples:
  "get_boundary_side (8, 0) = Some SideTop"
  "get_boundary_side (0, 8) = Some SideLeft"
  "get_boundary_side (100, 0) = Some SideTop"
  "get_boundary_side (100, 1079) = Some SideBottom"
  by (simp_all add: get_boundary_side_def WIDTH_def HEIGHT_def)

lemma desired_corner_of_examples:
  "desired_corner_of (Some SideTop) (Some SideLeft) = Some (0, 0)"
  "desired_corner_of (Some SideTop) (Some SideBottom) = None"
  by (simp_all add: desired_corner_of_def desired_corners_def doubleton_eq_iff)

text \<open>
  Claim C3, as amended.  With the boundary as generated and both trace endpoints
  resolved to boundary indices: a desired corner is computed exactly when the two
  endpoints classify to two different sides that are not opposite each other
  (for top and bottom, or left and right, the dictionary has no entry and no
  corner is computed); when a desired corner is computed, the chosen arc is the
  first candidate if that contains the corner within tolerance 1 and the second
  candidate otherwise, and the chosen arc contains the corner within tolerance 1;
  when no desired corner is computed, the chosen arc is the first candidate if it
  has fewer points than the second and the second otherwise, so its length is the
  smaller of the two.
\<close>

theorem chosen_segment_rule:
  assumes "bp = generate_boundary_points"
    and "find_index_in_boundary bp start_point = Some si"
    and "find_index_in_boundary bp end_point = Some ei"
  shows
   "(desired_corner_of (get_boundary_side start_point) (get_boundary_side end_point) \<noteq> None
       \<longleftrightarrow> (\<exists>a b. get_boundary_side start_point = Some a
                 \<and> get_boundary_side end_point = Some b
                 \<and> a \<noteq> b \<and> b \<noteq> opposite a))
    \<and> (\<forall>c. desired_corner_of (get_boundary_side start_point) (get_boundary_side end_point)
              = Some c \<longrightarrow>
          chosen_segment bp si ei (Some c)
            = (if contains_point (seg1 bp si ei) c then seg1 bp si ei else seg2 bp si ei)
          \<and> contains_point (chosen_segment bp si ei (Some c)) c)
    \<and> chosen_segment bp si ei None
          = (if length (seg1 bp si ei) < length (seg2 bp si ei)
             then seg1 bp si ei else seg2 bp si ei)
    \<and> length (chosen_segment bp si ei None)
          = min (length (seg1 bp si ei)) (length (seg2 bp si ei))"
proof -
  have si: "si < length bp" and ei: "ei < length bp"
    using assms(2,3) by (simp_all add: find_index_in_boundary_less)
  have a: "desired_corner_of (get_boundary_side start_point) (get_boundary_side end_point)
             \<noteq> None
       \<longleftrightarrow> (\<exists>a b. get_boundary_side start_point = Some a
                 \<and> get_boundary_side end_point = Some b
                 \<and> a \<noteq> b \<and> b \<noteq> opposite a)"
    by (rule desired_corner_of_iff)
  have b: "contains_point (chosen_segment bp si ei (Some c)) c"
    if "desired_corner_of (get_boundary_side start_point) (get_boundary_side end_point)
          = Some c" for c
    using chosen_segment_corner [OF si ei, of c] desired_corner_on_boundary [OF that] assms(1)
    by simp
  have c: "chosen_segment bp si ei (Some c)
            = (if contains_point (seg1 bp si ei) c then seg1 bp si ei else seg2 bp si ei)"
    for c
    by (simp add: chosen_segment_def)
  have d: "chosen_segment bp si ei None
          = (if length (seg1 bp si ei) < length (seg2 bp si ei)
             then seg1 bp si ei else seg2 bp si ei)"
    by (simp add: chosen_segment_def)
  have e: "length (chosen_segment bp si ei None)
          = min (length (seg1 bp si ei)) (length (seg2 bp si ei))"
    by (simp add: chosen_segment_def min_def)
  show ?thesis using a b c d e by blast
qed

theorem chosen_segment_rule_witness:
  "find_index_in_boundary generate_boundary_points (8, 0) = Some 8
   \<and> find_index_in_boundary generate_boundary_points (0, 8) = Some 5988
   \<and> desired_corner_of (get_boundary_side (8, 0)) (get_boundary_side (0, 8)) = Some (0, 0)
   \<and> chosen_segment generate_boundary_points 8 5988 (Some (0, 0))
        = (if contains_point (seg1 generate_boundary_points 8 5988) (0, 0)
           then seg1 generate_boundary_points 8 5988
           else seg2 generate_boundary_points 8 5988)
   \<and> contains_point (chosen_segment generate_boundary_points 8 5988 (Some (0, 0))) (0, 0)"
proof -
  have dc: "desired_corner_of (get_boundary_side (8, 0)) (get_boundary_side (0, 8))
              = Some (0, 0)"
    by (simp add: get_boundary_side_examples desired_corner_of_examples)
  from chosen_segment_rule [OF refl boundary_index_8_0 boundary_index_0_8] dc
  have "chosen_segment generate_boundary_points 8 5988 (Some (0, 0))
        = (if contains_point (seg1 generate_boundary_points 8 5988) (0, 0)
           then seg1 generate_boundary_points 8 5988
           else seg2 generate_boundary_points 8 5988)
   \<and> contains_point (chosen_segment generate_boundary_points 8 5988 (Some (0, 0))) (0, 0)"
    by blast
  with dc boundary_index_8_0 boundary_index_0_8 show ?thesis by blast
qed

text \<open>
  Claim C3 as stated fails: a trace from \<open>(100, 0)\<close> on the top side to
  \<open>(100, 1079)\<close> on the bottom side has both endpoints on the boundary, at
  indices 100 and 4817, and classified to two different sides, yet no desired
  corner is computed.
\<close>

theorem opposite_sides_no_corner:
  "get_boundary_side (100, 0) = Some SideTop
   \<and> get_boundary_side (100, 1079) = Some SideBottom
   \<and> find_index_in_boundary generate_boundary_points (100, 0) = Some 100
   \<and> find_index_in_boundary generate_boundary_points (100, 1079) = Some 4817
   \<and> desired_corner_of (get_boundary_side (100, 0)) (get_boundary_side (100, 1079)) = None"
  by (simp add: get_boundary_side_examples desired_corner_of_examples
        boundary_index_100_0 boundary_index_100_1079)

section \<open>The trace while drawing\<close>

lemma turn_None: "turn cur dx dy = None \<Longrightarrow> cur = None \<and> dx = 0 \<and> dy = 0"
  by (auto simp: turn_def new_direction_def split: if_splits option.splits)

lemma heading_None: "heading None 0 0 = (0, 0)"
  by (simp add: heading_def)

lemma heading_Some:
  "axis_step m (a, b) (a + fst (heading (Some d) dx dy) * m, b + snd (heading (Some d) dx dy) * m)
   \<or> m < 0"
  by (cases d) (auto simp: heading_def axis_step_def)

lemma is_on_boundary_cong:
  "boundary_points s' = boundary_points s \<Longrightarrow> filled_areas s' = filled_areas s \<Longrightarrow>
   is_on_boundary s' a b = is_on_boundary s a b"
  by (simp add: is_on_boundary_def)

lemma stop_drawing_cases:
  assumes "stop_drawing s = Inr s'"
  shows "s' = s \<or> (\<not> drawing s' \<and> speed s' = speed s)"
proof (cases "drawing s \<and> 2 < length (temp_points s)")
  case True
  then show ?thesis using stop_drawing_long [of s] assms by auto
next
  case False
  then have "stop_drawing s = Inr s" by (auto simp: stop_drawing_def)
  then show ?thesis using assms by simp
qed

lemma trace_inv_init: "trace_inv Player_init"
  by (simp add: trace_inv_def Player_init_def)

lemma trace_inv_start: "trace_inv s \<Longrightarrow> trace_inv (start_drawing s)"
  by (auto simp: trace_inv_def start_drawing_def is_on_boundary_def)

lemma trace_inv_stop: "trace_inv s \<Longrightarrow> stop_drawing s = Inr s' \<Longrightarrow> trace_inv s'"
  using stop_drawing_cases [of s s'] by (auto simp: trace_inv_def)

lemma trace_inv_extend:
  assumes inv: "trace_inv s" and dr: "drawing s"
    and d_def: "d = turn (current_direction s) dx dy"
    and nx_def: "nx = player_x s + fst (heading d dx dy) * speed s"
    and ny_def: "ny = player_y s + snd (heading d dx dy) * speed s"
  shows "trace_inv (s\<lparr>current_direction := d\<rparr>)"
    and "trace_inv (s\<lparr>current_direction := d, player_x := nx, player_y := ny,
                      temp_points := temp_points s @ [(nx, ny)]\<rparr>)"
proof -
  have sp: "speed s = 4" and ne: "temp_points s \<noteq> []"
    and la: "last (temp_points s) = (player_x s, player_y s)"
    and su: "successively (lenient_step (hd (temp_points s)) 4) (temp_points s)"
    and al: "current_direction s = None \<Longrightarrow> \<forall>q \<in> set (temp_points s). q = hd (temp_points s)"
    and ob: "is_on_boundary s (fst (hd (temp_points s))) (snd (hd (temp_points s)))"
    using inv dr by (simp_all add: trace_inv_def)
  have dn: "d = None \<Longrightarrow> current_direction s = None \<and> dx = 0 \<and> dy = 0"
    unfolding d_def by (rule turn_None)
  show "trace_inv (s\<lparr>current_direction := d\<rparr>)"
    using sp ne la su al ob dn by (auto simp: trace_inv_def is_on_boundary_def)
  have step: "lenient_step (hd (temp_points s)) 4 (last (temp_points s)) (nx, ny)"
  proof (cases d)
    case None
    then have "current_direction s = None" "dx = 0" "dy = 0" using dn by simp_all
    then have "(nx, ny) = last (temp_points s)" "last (temp_points s) = hd (temp_points s)"
      using la al ne None last_in_set [OF ne] by (simp_all add: nx_def ny_def heading_None)
    then show ?thesis by (simp add: lenient_step_def)
  next
    case (Some e)
    then show ?thesis
      using heading_Some [of 4 "player_x s" "player_y s" e dx dy] la sp
      by (simp add: lenient_step_def nx_def ny_def)
  qed
  have su': "successively (lenient_step (hd (temp_points s)) 4) (temp_points s @ [(nx, ny)])"
    using su step ne by (simp add: successively_append_iff)
  have al': "d = None \<Longrightarrow> \<forall>q \<in> set (temp_points s @ [(nx, ny)]). q = hd (temp_points s)"
  proof -
    assume d: "d = None"
    then have "current_direction s = None" "dx = 0" "dy = 0" using dn by simp_all
    then have "(nx, ny) = last (temp_points s)" "last (temp_points s) = hd (temp_points s)"
      using la al ne d last_in_set [OF ne] by (simp_all add: nx_def ny_def heading_None)
    then show ?thesis using al \<open>current_direction s = None\<close> by auto
  qed
  show "trace_inv (s\<lparr>current_direction := d, player_x := nx, player_y := ny,
                      temp_points := temp_points s @ [(nx, ny)]\<rparr>)"
    using sp ne su' al' ob by (auto simp: trace_inv_def is_on_boundary_def)
qed

lemma trace_inv_sparks: "trace_inv s \<Longrightarrow> trace_inv (create_spark draw s)"
  by (cases draw) (auto simp: trace_inv_def create_spark_def is_on_boundary_def)

lemma trace_inv_move:
  assumes inv: "trace_inv s" and mv: "move dx dy roll s = Inr s'"
  shows "trace_inv s'"
proof (cases "drawing s")
  case False
  then show ?thesis using inv mv
    by (auto simp: move_def Let_def trace_inv_def split: if_splits)
next
  case True
  define d where "d = turn (current_direction s) dx dy"
  define nx where "nx = player_x s + fst (heading d dx dy) * speed s"
  define ny where "ny = player_y s + snd (heading d dx dy) * speed s"
  define s1 where "s1 = s\<lparr>current_direction := d\<rparr>"
  define s2 where "s2 =
     (if is_valid_move s1 nx ny
      then (let s' = s1\<lparr>player_x := nx, player_y := ny,
                         temp_points := temp_points s1 @ [(nx, ny)]\<rparr>
            in case roll of None \<Rightarrow> s' | Some draw \<Rightarrow> create_spark draw s')
      else s1)"
  have i1: "trace_inv s1"
    unfolding s1_def by (rule trace_inv_extend(1) [OF inv True d_def nx_def ny_def])
  have i1': "trace_inv (s1\<lparr>player_x := nx, player_y := ny,
                         temp_points := temp_points s1 @ [(nx, ny)]\<rparr>)"
    using trace_inv_extend(2) [OF inv True d_def nx_def ny_def]
    by (simp add: s1_def)
  have i2: "trace_inv s2"
    unfolding s2_def using i1 i1' by (cases roll) (simp_all add: Let_def trace_inv_sparks)
  have "move dx dy roll s =
          (if is_on_boundary s2 nx ny then
              (case temp_points s2 of
                 [] \<Rightarrow> Inl IndexError
               | t0 # _ \<Rightarrow> if (nx, ny) \<noteq> t0 then stop_drawing s2 else Inr s2)
           else Inr s2)"
    using True unfolding move_def s2_def s1_def nx_def ny_def d_def Let_def
    by (simp cong: if_cong list.case_cong option.case_cong)
  then have "s' = s2 \<or> stop_drawing s2 = Inr s'"
    using mv by (auto split: if_splits list.splits)
  then show ?thesis using i2 trace_inv_stop by blast
qed

lemma reachable_trace_inv: "reachable s \<Longrightarrow> trace_inv s"
  by (induction rule: reachable.induct)
     (auto intro: trace_inv_init trace_inv_start trace_inv_move trace_inv_stop)

text \<open>
  Claim C6, as amended.  In every reachable state while drawing, the speed is 4,
  the trace is not empty, consecutive trace points differ by an axis-aligned step
  of magnitude 4 or repeat the start point of the trace, and the first trace
  point satisfies \<open>is_on_boundary\<close>: it is a boundary point or lies within
  distance 2 of an edge of a filled polygon.
\<close>

theorem trace_shape_reachable:
  "reachable s \<Longrightarrow> drawing s \<Longrightarrow>
     speed s = 4 \<and> temp_points s \<noteq> []
     \<and> successively (lenient_step (hd (temp_points s)) (speed s)) (temp_points s)
     \<and> is_on_boundary s (fst (hd (temp_points s))) (snd (hd (temp_points s)))"
  using reachable_trace_inv [of s] by (simp add: trace_inv_def)

lemma run_reachable: "reachable s \<Longrightarrow> run cs s = Inr s' \<Longrightarrow> reachable s'"
proof (induction cs s rule: run.induct)
  case (1 s)
  then show ?case by simp
next
  case (2 cs s)
  then show ?case by (simp add: reach_start)
next
  case (3 dx dy roll cs s)
  then show ?case by (auto split: sum.splits intro: reach_move)
next
  case (4 cs s)
  then show ?case by (auto split: sum.splits intro: reach_stop)
qed

lemma run_append:
  "run (cs @ ds) s = (case run cs s of Inl e \<Rightarrow> Inl e | Inr s' \<Rightarrow> run ds s')"
  by (induction cs s rule: run.induct) (auto split: sum.splits)

lemma is_on_boundary_plain:
  "boundary_points s = generate_boundary_points \<Longrightarrow> filled_areas s = [] \<Longrightarrow>
   is_on_boundary s a b \<longleftrightarrow> (a, b) \<in> set generate_boundary_points"
  by (auto simp: is_on_boundary_def list_ex_iff)

lemmas move_simps = move_def Let_def is_on_boundary_plain set_generate_boundary_points
  Player_init_def start_drawing_def turn_def new_direction_def heading_def horizontal_def
  is_valid_move_def

lemma zero_step_run:
  "run zero_step_calls Player_init =
     Inr (Player_init\<lparr>drawing := True, temp_points := [(0, 0), (0, 0)],
                      current_direction := None\<rparr>)"
  by (simp add: zero_step_calls_def move_simps)

lemma edge_run_1:
  "run [Move 1 0 None, Move 1 0 None, StartDrawing,
      Move 0 1 None, Move 0 1 None, Move (- 1) 0 None] Player_init =
     Inr turning_trace_player"
  by (simp add: move_simps turning_trace_player_def)

lemma edge_run_2:
  "move (- 1) 0 None turning_trace_player = stop_drawing corner_trace_player"
  by (simp add: move_simps corner_trace_player_def turning_trace_player_def)


lemma near_edge_prefix:
  "i + 1 < length xs \<Longrightarrow> near_edge a b (xs @ rest) i = near_edge a b xs i"
  by (simp add: near_edge_def nth_append)

lemma is_on_boundary_edge:
  assumes "area \<in> set (filled_areas s)" "i + 1 < length area" "near_edge a b area i"
  shows "is_on_boundary s a b"
proof -
  have "i \<in> set [0 ..< length area - 1]" using assms(2) by simp
  then have "list_ex (near_edge a b area) [0 ..< length area - 1]"
    using assms(3) unfolding list_ex_iff by blast
  then show ?thesis using assms(1) unfolding is_on_boundary_def list_ex_iff by blast
qed

lemma corner_trace_near:
  "near_edge 4 8 [(8, 0), (8, 4), (8, 8), (4, 8), (0, 8)] 2"
  "near_edge 4 8 (rev [(8, 0), (8, 4), (8, 8), (4, 8), (0, 8)]) 0"
  by (simp_all add: near_edge_def point_to_line_distance_def)

lemma edge_run_3:
  "\<exists>fp. run edge_start_calls Player_init =
     Inr (Player_init\<lparr>player_x := 4, player_y := 8, drawing := True,
            temp_points := [(4, 8)], filled_areas := [fp]\<rparr>)"
proof -
  let ?tp = "[(8, 0), (8, 4), (8, 8), (4, 8), (0, 8)] :: point list"
  obtain fp bp rest where
    st: "stop_drawing corner_trace_player =
           Inr (corner_trace_player\<lparr>filled_areas := filled_areas corner_trace_player @ [fp],
                  drawing := False, temp_points := [], current_direction := None,
                  boundary_points := bp\<rparr>)"
    and bp: "bp = boundary_points corner_trace_player \<or> bp = generate_boundary_points"
    and fp: "fp = temp_points corner_trace_player @ rest
             \<or> fp = rev (temp_points corner_trace_player) @ rest"
    using stop_drawing_long [of corner_trace_player]
    by (auto simp: corner_trace_player_def)
  define sC where "sC = Player_init\<lparr>player_x := 0, player_y := 8, filled_areas := [fp]\<rparr>"
  have bp': "bp = generate_boundary_points"
    using bp by (auto simp: corner_trace_player_def Player_init_def)
  have st': "stop_drawing corner_trace_player = Inr sC"
    using st bp' by (simp add: sC_def corner_trace_player_def Player_init_def)
  have fp': "fp = ?tp @ rest \<or> fp = rev ?tp @ rest"
    using fp by (simp add: corner_trace_player_def)
  have near: "\<exists>i. i + 1 < length fp \<and> near_edge 4 8 fp i"
  proof -
    from fp' consider "fp = ?tp @ rest" | "fp = rev ?tp @ rest" by blast
    then show ?thesis
    proof cases
      case 1
      have "near_edge 4 8 fp 2"
        unfolding 1 using near_edge_prefix [of 2 ?tp 4 8 rest] corner_trace_near(1) by simp
      moreover have "2 + 1 < length fp" unfolding 1 by simp
      ultimately show ?thesis by blast
    next
      case 2
      have "near_edge 4 8 fp 0"
        unfolding 2 using near_edge_prefix [of 0 "rev ?tp" 4 8 rest] corner_trace_near(2) by simp
      moreover have "0 + 1 < length fp" unfolding 2 by simp
      ultimately show ?thesis by blast
    qed
  qed
  have ob: "is_on_boundary s 4 8" if "filled_areas s = [fp]" for s
    using near is_on_boundary_edge [of fp s _ 4 8] that by auto
  have mv: "move 1 0 None sC = Inr (sC\<lparr>player_x := 4\<rparr>)"
    using ob [of sC] by (simp add: move_def Let_def sC_def Player_init_def)
  have sd: "start_drawing (sC\<lparr>player_x := 4\<rparr>) =
     Player_init\<lparr>player_x := 4, player_y := 8, drawing := True,
            temp_points := [(4, 8)], filled_areas := [fp]\<rparr>"
    using ob [of "sC\<lparr>player_x := 4\<rparr>"] by (simp add: start_drawing_def sC_def Player_init_def)
  have "run ([Move 1 0 None, Move 1 0 None, StartDrawing,
      Move 0 1 None, Move 0 1 None, Move (- 1) 0 None] @ [Move (- 1) 0 None,
      Move 1 0 None, StartDrawing]) Player_init =
     Inr (Player_init\<lparr>player_x := 4, player_y := 8, drawing := True,
            temp_points := [(4, 8)], filled_areas := [fp]\<rparr>)"
    unfolding run_append edge_run_1 by (simp add: edge_run_2 st' mv sd)
  then have "run edge_start_calls Player_init =
     Inr (Player_init\<lparr>player_x := 4, player_y := 8, drawing := True,
            temp_points := [(4, 8)], filled_areas := [fp]\<rparr>)"
    by (simp add: edge_start_calls_def)
  then show ?thesis by blast
qed

theorem trace_shape_reachable_witness:
  "reachable turning_trace_player \<and> drawing turning_trace_player
   \<and> speed turning_trace_player = 4
   \<and> temp_points turning_trace_player = [(8, 0), (8, 4), (8, 8), (4, 8)]
   \<and> successively (lenient_step (8, 0) 4) [(8, 0), (8, 4), (8, 8), (4, 8)]
   \<and> is_on_boundary turning_trace_player 8 0"
proof -
  have r: "reachable turning_trace_player"
    using run_reachable [OF reach_init edge_run_1] .
  have d: "drawing turning_trace_player"
    by (simp add: turning_trace_player_def)
  from trace_shape_reachable [OF r d] r d show ?thesis
    by (simp add: turning_trace_player_def Player_init_def)
qed

text \<open>
  Claim C6 as stated fails in both halves.  After \<open>start_drawing\<close> and one move
  without input, the trace is \<open>[(0, 0), (0, 0)]\<close>: its two points do not differ by
  a step of magnitude 4.  After an L-shaped trace from \<open>(8, 0)\<close> to \<open>(0, 8)\<close> is
  closed, the player steps from \<open>(0, 8)\<close> to \<open>(4, 8)\<close> on the edge of the new
  polygon and starts a drawing there: the first trace point \<open>(4, 8)\<close> is not a
  point of the boundary curve.
\<close>

theorem trace_shape_violated:
  "reachable zero_step_player \<and> drawing zero_step_player \<and> \<not> trace_steps zero_step_player
   \<and> reachable edge_start_player \<and> drawing edge_start_player
   \<and> \<not> trace_starts_on_curve edge_start_player"
proof -
  have z: "run zero_step_calls Player_init = Inr zero_step_player"
    by (simp add: zero_step_player_def zero_step_run)
  have zr: "reachable zero_step_player"
    using run_reachable [OF reach_init z] .
  have ze: "zero_step_player = Player_init\<lparr>drawing := True,
              temp_points := [(0, 0), (0, 0)], current_direction := None\<rparr>"
    by (simp add: zero_step_player_def zero_step_run)
  have zs: "drawing zero_step_player" "\<not> trace_steps zero_step_player"
    by (simp_all add: ze trace_steps_def axis_step_def Player_init_def)
  obtain fp where fp: "run edge_start_calls Player_init =
     Inr (Player_init\<lparr>player_x := 4, player_y := 8, drawing := True,
            temp_points := [(4, 8)], filled_areas := [fp]\<rparr>)"
    using edge_run_3 by blast
  then have e: "run edge_start_calls Player_init = Inr edge_start_player"
    by (simp add: edge_start_player_def)
  have er: "reachable edge_start_player"
    using run_reachable [OF reach_init e] .
  have ee: "edge_start_player = Player_init\<lparr>player_x := 4, player_y := 8, drawing := True,
            temp_points := [(4, 8)], filled_areas := [fp]\<rparr>"
    by (simp add: edge_start_player_def fp)
  have es: "drawing edge_start_player" "\<not> trace_starts_on_curve edge_start_player"
    by (simp_all add: ee trace_starts_on_curve_def Player_init_def
          list_ex_iff set_generate_boundary_points)
  show ?thesis using zr zs er es by blast
qed

section \<open>Ray casting on convex polygons and outside the bounding box\<close>

lemma pip_body_crosses:
  "\<exists>xi. pip_body pt s b = Inr \<lparr>inside = (inside s \<noteq> crosses pt (p1 s) b), p1 = b, xinters = xi\<rparr>"
  by (cases s) (auto simp: pip_body_def crosses_def rounded_x_at_def Let_def)

lemma pip_loop_crossings:
  "\<exists>s'. pip_loop pt poly is s = Inr s'
        \<and> inside s' = (inside s \<noteq> crossings pt (p1 s) (map (\<lambda>i. poly ! (i mod length poly)) is))"
proof (induction "is" arbitrary: s)
  case Nil
  then show ?case by simp
next
  case (Cons i "is")
  obtain xi where b: "pip_body pt s (poly ! (i mod length poly)) =
      Inr \<lparr>inside = (inside s \<noteq> crosses pt (p1 s) (poly ! (i mod length poly))),
           p1 = poly ! (i mod length poly), xinters = xi\<rparr>"
    using pip_body_crosses by blast
  from Cons.IH [of "\<lparr>inside = (inside s \<noteq> crosses pt (p1 s) (poly ! (i mod length poly))),
           p1 = poly ! (i mod length poly), xinters = xi\<rparr>"]
  show ?case using b by auto
qed

lemma ring_indices:
  assumes "poly \<noteq> []"
  shows "map (\<lambda>i. poly ! (i mod length poly)) [1 ..< length poly + 1] = rotate1 poly"
proof (rule nth_equalityI)
  show "length (map (\<lambda>i. poly ! (i mod length poly)) [1 ..< length poly + 1]) = length (rotate1 poly)"
    by (simp del: upt_Suc)
next
  fix k assume "k < length (map (\<lambda>i. poly ! (i mod length poly)) [1 ..< length poly + 1])"
  then have k: "k < length poly" by (simp del: upt_Suc)
  have "rotate1 poly ! k = poly ! ((k + 1) mod length poly)"
    using k by (simp add: nth_rotate1)
  moreover have "[1 ..< length poly + 1] ! k = k + 1" using k by (simp del: upt_Suc)
  ultimately show "map (\<lambda>i. poly ! (i mod length poly)) [1 ..< length poly + 1] ! k = rotate1 poly ! k"
    using k by (simp del: upt_Suc)
qed

lemma point_in_polygon_crossings:
  assumes "poly \<noteq> []"
  shows "point_in_polygon pt poly = Inr (crossings pt (hd poly) (rotate1 poly))"
proof -
  obtain p0 ps where poly: "poly = p0 # ps" using assms by (cases poly) auto
  obtain s' where s': "pip_loop pt poly [1 ..< length poly + 1]
       \<lparr>inside = False, p1 = p0, xinters = None\<rparr> = Inr s'"
     "inside s' = (False \<noteq> crossings pt p0 (map (\<lambda>i. poly ! (i mod length poly)) [1 ..< length poly + 1]))"
    using pip_loop_crossings [of pt poly "[1 ..< length poly + 1]"
        "\<lparr>inside = False, p1 = p0, xinters = None\<rparr>"]
    by auto
  have "inside s' = crossings pt p0 (rotate1 poly)"
    using s'(2) ring_indices [OF assms] by simp
  then show ?thesis using s'(1) unfolding point_in_polygon_def poly by simp
qed

lemma crossings_filter:
  "crossings pt a bs = odd (length (filter (\<lambda>(u, v). crosses pt u v) (zip (a # bs) bs)))"
  by (induction bs arbitrary: a) auto

lemma zip_ring:
  assumes "r \<noteq> []"
  shows "zip (hd r # rotate1 r) (rotate1 r) = ring_edges r"
proof -
  obtain v vs where r: "r = v # vs" using assms by (cases r) auto
  have "zip (v # vs @ [v]) (vs @ [v]) = zip (v # vs) (vs @ [v])"
    by (rule zip_append1 [of "v # vs" "[v]" "vs @ [v]", simplified])
  then show ?thesis by (simp add: r ring_edges_def)
qed

lemma point_in_polygon_edges:
  assumes "r \<noteq> []"
  shows "point_in_polygon pt r
           = Inr (odd (length (filter (\<lambda>(u, v). crosses pt u v) (ring_edges r))))"
  using point_in_polygon_crossings [OF assms, of pt] crossings_filter [of pt "hd r" "rotate1 r"]
    zip_ring [OF assms]
  by simp

lemma straddle_iff:
  "(y > min p q \<and> y \<le> max p q) \<longleftrightarrow> ((p < y \<and> y \<le> q) \<or> (q < y \<and> y \<le> p))" for y p q :: real
  by auto

lemma convex_comb_bounds:
  fixes a b t :: real
  assumes "0 \<le> t" "t \<le> 1"
  shows "min a b \<le> a + t * (b - a)" "a + t * (b - a) \<le> max a b"
proof -
  have e: "a + t * (b - a) = (1 - t) * a + t * b" by (simp add: algebra_simps)
  have "(1 - t) * min a b \<le> (1 - t) * a" "t * min a b \<le> t * b"
    using assms by (simp_all add: mult_left_mono)
  then have "(1 - t) * min a b + t * min a b \<le> (1 - t) * a + t * b" by linarith
  then show "min a b \<le> a + t * (b - a)" unfolding e by (simp add: algebra_simps)
  have "(1 - t) * a \<le> (1 - t) * max a b" "t * b \<le> t * max a b"
    using assms by (simp_all add: mult_left_mono)
  then have "(1 - t) * a + t * b \<le> (1 - t) * max a b + t * max a b" by linarith
  then show "a + t * (b - a) \<le> max a b" unfolding e by (simp add: algebra_simps)
qed

lemma x_at_bounds:
  assumes "up_edge y a b \<or> up_edge y b a"
  shows "min (fst a) (fst b) \<le> x_at y a b" "x_at y a b \<le> max (fst a) (fst b)"
proof -
  define t where "t = (y - snd a) / (snd b - snd a)"
  have t: "0 \<le> t \<and> t \<le> 1"
    using assms unfolding t_def up_edge_def
    by (auto simp: divide_le_eq le_divide_eq)
  have e: "x_at y a b = fst a + t * (fst b - fst a)"
    by (simp add: x_at_def t_def)
  show "min (fst a) (fst b) \<le> x_at y a b" "x_at y a b \<le> max (fst a) (fst b)"
    unfolding e using convex_comb_bounds [of t "fst a" "fst b"] t by simp_all
qed

lemma cross3_x_at:
  assumes "snd a \<noteq> snd b"
  shows "cross3 a b (px, y) = (snd b - snd a) * (x_at y a b - px)"
  using assms by (simp add: cross3_def x_at_def field_simps)

lemma crosses_exact_iff:
  "crosses_exact pt a b \<longleftrightarrow>
     (up_edge (snd pt) a b \<or> up_edge (snd pt) b a) \<and> fst pt \<le> x_at (snd pt) a b"
proof -
  have s: "(snd pt > min (snd a) (snd b) \<and> snd pt \<le> max (snd a) (snd b))
        \<longleftrightarrow> (up_edge (snd pt) a b \<or> up_edge (snd pt) b a)"
    unfolding up_edge_def by auto
  show ?thesis
  proof (cases "up_edge (snd pt) a b \<or> up_edge (snd pt) b a")
    case False
    then show ?thesis using s by (auto simp: crosses_exact_def)
  next
    case True
    note b = x_at_bounds [OF True]
    have vert: "fst a = fst b \<Longrightarrow> x_at (snd pt) a b = fst a"
      by (simp add: x_at_def)
    show ?thesis
      using True s b vert unfolding crosses_exact_def x_at_def [symmetric]
      by (smt (verit) max.idem)
  qed
qed

lemma crosses_inside:
  assumes sg: "sg = 1 \<or> sg = - 1" and pos: "0 < sg * cross3 a b pt"
  shows "crosses_exact pt a b \<longleftrightarrow> (if sg = 1 then up_edge (snd pt) a b else up_edge (snd pt) b a)"
proof -
  define d where "d = x_at (snd pt) a b - fst pt"
  have c: "cross3 a b pt = (snd b - snd a) * d" if "snd a \<noteq> snd b"
    using cross3_x_at [OF that, of "fst pt" "snd pt"] by (simp add: d_def)
  have k: "crosses_exact pt a b \<longleftrightarrow> (up_edge (snd pt) a b \<or> up_edge (snd pt) b a) \<and> 0 \<le> d"
    by (simp add: crosses_exact_iff d_def)
  have ex: "\<not> (up_edge (snd pt) a b \<and> up_edge (snd pt) b a)"
    by (auto simp: up_edge_def)
  from sg show ?thesis
  proof
    assume s1: "sg = 1"
    then have p: "0 < cross3 a b pt" using pos by simp
    have "0 < d" if "up_edge (snd pt) a b"
    proof -
      have "0 < snd b - snd a" using that by (auto simp: up_edge_def)
      then show ?thesis using p c by (simp add: zero_less_mult_iff)
    qed
    moreover have "d < 0" if "up_edge (snd pt) b a"
    proof -
      have "snd b - snd a < 0" using that by (auto simp: up_edge_def)
      then show ?thesis using p c by (simp add: zero_less_mult_iff)
    qed
    ultimately show ?thesis using s1 k ex by auto
  next
    assume s2: "sg = - 1"
    then have p: "cross3 a b pt < 0" using pos by simp
    have "d < 0" if "up_edge (snd pt) a b"
    proof -
      have "0 < snd b - snd a" using that by (auto simp: up_edge_def)
      then show ?thesis using p c by (simp add: mult_less_0_iff)
    qed
    moreover have "0 < d" if "up_edge (snd pt) b a"
    proof -
      have "snd b - snd a < 0" using that by (auto simp: up_edge_def)
      then show ?thesis using p c by (simp add: mult_less_0_iff)
    qed
    ultimately show ?thesis using s2 k ex by auto
  qed
qed

lemma ring_edges_vertices:
  "(u, v) \<in> set (ring_edges r) \<Longrightarrow> u \<in> set r \<and> v \<in> set r"
  unfolding ring_edges_def by (metis set_rotate1 set_zip_leftD set_zip_rightD)

lemma path_parity:
  "odd (length (filter (\<lambda>(u, v). changes P u v) (zip (a # bs) bs))) = changes P a (last (a # bs))"
proof (induction bs arbitrary: a)
  case Nil
  show ?case by (simp add: changes_def)
next
  case (Cons b bs)
  have "odd (length (filter (\<lambda>(u, v). changes P u v) (zip (a # b # bs) (b # bs))))
      = (changes P a b \<noteq> odd (length (filter (\<lambda>(u, v). changes P u v) (zip (b # bs) bs))))"
    by simp
  also have "\<dots> = (changes P a b \<noteq> changes P b (last (b # bs)))"
    by (simp only: Cons.IH)
  also have "\<dots> = changes P a (last (a # b # bs))"
    unfolding changes_def by auto
  finally show ?case .
qed

lemma ring_parity:
  assumes "r \<noteq> []"
  shows "even (length (filter (\<lambda>(u, v). changes P u v) (ring_edges r)))"
proof -
  have "last (hd r # rotate1 r) = hd r"
    using assms by (cases r) auto
  then have "\<not> changes P (hd r) (last (hd r # rotate1 r))"
    by (simp add: changes_def)
  then show ?thesis
    using path_parity [of P "hd r" "rotate1 r"] zip_ring [OF assms] by simp
qed

lemma harmless_crosses:
  assumes "rounding_harmless pt r" "(a, b) \<in> set (ring_edges r)"
  shows "crosses pt a b = crosses_exact pt a b"
proof -
  have h: "(fst pt \<le> rounded_x_at (snd pt) a b) = (fst pt \<le> x_at (snd pt) a b)"
    if "up_edge (snd pt) a b \<or> up_edge (snd pt) b a" "fst pt \<le> max (fst a) (fst b)"
      "fst a \<noteq> fst b"
    using assms that unfolding rounding_harmless_def list_all_iff by auto
  have s: "(snd pt > min (snd a) (snd b) \<and> snd pt \<le> max (snd a) (snd b))
        \<longleftrightarrow> (up_edge (snd pt) a b \<or> up_edge (snd pt) b a)"
    unfolding up_edge_def by auto
  show ?thesis
    unfolding crosses_def crosses_exact_def x_at_def [symmetric] using h s by blast
qed

lemma point_in_polygon_edges_exact:
  assumes "r \<noteq> []" "rounding_harmless pt r"
  shows "point_in_polygon pt r
           = Inr (odd (length (filter (\<lambda>(u, v). crosses_exact pt u v) (ring_edges r))))"
proof -
  have "filter (\<lambda>(u, v). crosses pt u v) (ring_edges r)
      = filter (\<lambda>(u, v). crosses_exact pt u v) (ring_edges r)"
  proof (rule filter_cong [OF refl])
    fix e assume e: "e \<in> set (ring_edges r)"
    obtain a b where ab: "e = (a, b)" by (rule prod.exhaust)
    show "(case e of (u, v) \<Rightarrow> crosses pt u v) = (case e of (u, v) \<Rightarrow> crosses_exact pt u v)"
      unfolding ab using harmless_crosses [OF assms(2) e [unfolded ab]] by simp
  qed
  then show ?thesis using point_in_polygon_edges [OF assms(1), of pt] by simp
qed

lemma point_in_polygon_beside_bbox:
  assumes ne: "poly \<noteq> []" and out: "beside_bbox pt poly"
  shows "point_in_polygon pt poly = Inr False"
proof -
  let ?E = "ring_edges poly"
  have "filter (\<lambda>(u, v). crosses pt u v) ?E = []"
  proof (rule filter_False, rule ballI)
    fix e assume e: "e \<in> set ?E"
    obtain a b where ab: "e = (a, b)" by (rule prod.exhaust)
    have v: "a \<in> set poly" "b \<in> set poly"
      using ring_edges_vertices [OF e [unfolded ab]] by simp_all
    from out consider
        (right) "\<forall>q \<in> set poly. fst q < fst pt"
      | (above) "\<forall>q \<in> set poly. snd pt < snd q"
      | (below) "\<forall>q \<in> set poly. snd q < snd pt"
      unfolding beside_bbox_def list_all_iff by blast
    then have "\<not> crosses pt a b"
    proof cases
      case right
      then have "fst a < fst pt" "fst b < fst pt" using v by simp_all
      then show ?thesis unfolding crosses_def by auto
    next
      case above
      then have "snd pt < snd a" "snd pt < snd b" using v by simp_all
      then show ?thesis unfolding crosses_def by auto
    next
      case below
      then have "snd a < snd pt" "snd b < snd pt" using v by simp_all
      then show ?thesis unfolding crosses_def by auto
    qed
    then show "\<not> (case e of (u, v) \<Rightarrow> crosses pt u v)" unfolding ab by simp
  qed
  then show ?thesis using point_in_polygon_edges [OF ne, of pt] by simp
qed

lemma point_in_polygon_left_of_bbox:
  assumes ne: "poly \<noteq> []" and left: "left_of_bbox pt poly" and hl: "rounding_harmless pt poly"
  shows "point_in_polygon pt poly = Inr False"
proof -
  let ?E = "ring_edges poly"
  have "filter (\<lambda>(u, v). crosses_exact pt u v) ?E
      = filter (\<lambda>(u, v). changes (\<lambda>q. snd q < snd pt) u v) ?E"
  proof (rule filter_cong [OF refl])
    fix e assume e: "e \<in> set ?E"
    obtain a b where ab: "e = (a, b)" by (rule prod.exhaust)
    have x: "fst pt < fst a" "fst pt < fst b"
      using ring_edges_vertices [OF e [unfolded ab]] left
      unfolding left_of_bbox_def list_all_iff by simp_all
    have "fst pt \<le> x_at (snd pt) a b"
      if "up_edge (snd pt) a b \<or> up_edge (snd pt) b a"
      using x_at_bounds(1) [OF that] x by simp
    then have "crosses_exact pt a b = changes (\<lambda>q. snd q < snd pt) a b"
      unfolding crosses_exact_iff changes_def by (auto simp: up_edge_def)
    then show "(case e of (u, v) \<Rightarrow> crosses_exact pt u v)
        = (case e of (u, v) \<Rightarrow> changes (\<lambda>q. snd q < snd pt) u v)"
      unfolding ab by simp
  qed
  then have "even (length (filter (\<lambda>(u, v). crosses_exact pt u v) ?E))"
    using ring_parity [OF ne, of "\<lambda>q. snd q < snd pt"] by simp
  then show ?thesis using point_in_polygon_edges_exact [OF ne hl] by simp
qed

lemma cross3_affine:
  "cross3 a b (fst p + s * (fst q - fst p), snd p + s * (snd q - snd p))
     = (1 - s) * cross3 a b p + s * cross3 a b q"
  by (simp add: cross3_def algebra_simps)

lemma up_edge_param:
  assumes "up_edge y a b"
  defines "s \<equiv> (y - snd a) / (snd b - snd a)"
  shows "0 < s" "s \<le> 1" "x_at y a b = fst a + s * (fst b - fst a)"
    "y = snd a + s * (snd b - snd a)" "s = 1 \<Longrightarrow> y = snd b"
proof -
  have h: "0 < snd b - snd a" "0 < y - snd a" "y - snd a \<le> snd b - snd a"
    using assms(1) by (auto simp: up_edge_def)
  show "0 < s" using h by (simp add: s_def)
  show "s \<le> 1" using h by (simp add: s_def divide_le_eq)
  show "x_at y a b = fst a + s * (fst b - fst a)" by (simp add: x_at_def s_def)
  show "y = snd a + s * (snd b - snd a)" using h by (simp add: s_def)
  show "s = 1 \<Longrightarrow> y = snd b" using h by (simp add: s_def)
qed

lemma up_pair_half:
  assumes sg: "sg = 1 \<or> sg = - 1"
    and u1: "up_edge y a1 b1" and u2: "up_edge y a2 b2"
    and xa: "0 \<le> sg * cross3 a1 b1 a2" and xb: "0 \<le> sg * cross3 a1 b1 b2"
  shows "0 \<le> sg * (x_at y a1 b1 - x_at y a2 b2)"
    and "x_at y a1 b1 = x_at y a2 b2 \<Longrightarrow>
           cross3 a1 b1 b2 = 0 \<and> (y = snd b2 \<or> cross3 a1 b1 a2 = 0)"
proof -
  define s where "s = (y - snd a2) / (snd b2 - snd a2)"
  note p = up_edge_param [OF u2, folded s_def]
  have h1: "0 < snd b1 - snd a1" "snd a1 \<noteq> snd b1" using u1 by (auto simp: up_edge_def)
  have "cross3 a1 b1 (x_at y a2 b2, y) = (1 - s) * cross3 a1 b1 a2 + s * cross3 a1 b1 b2"
    using cross3_affine [of a1 b1 a2 s b2] p(3,4) by simp
  moreover have "cross3 a1 b1 (x_at y a2 b2, y)
      = (snd b1 - snd a1) * (x_at y a1 b1 - x_at y a2 b2)"
    by (rule cross3_x_at [OF h1(2)])
  ultimately have e: "(snd b1 - snd a1) * (x_at y a1 b1 - x_at y a2 b2)
      = (1 - s) * cross3 a1 b1 a2 + s * cross3 a1 b1 b2"
    by simp
  have n1: "0 \<le> (1 - s) * (sg * cross3 a1 b1 a2)"
    using p(2) xa by (simp add: mult_nonneg_nonneg)
  have n2: "0 \<le> s * (sg * cross3 a1 b1 b2)"
    using p(1) xb by (simp add: mult_nonneg_nonneg)
  have e': "(snd b1 - snd a1) * (sg * (x_at y a1 b1 - x_at y a2 b2))
      = (1 - s) * (sg * cross3 a1 b1 a2) + s * (sg * cross3 a1 b1 b2)"
  proof -
    have "(snd b1 - snd a1) * (sg * (x_at y a1 b1 - x_at y a2 b2))
        = sg * ((snd b1 - snd a1) * (x_at y a1 b1 - x_at y a2 b2))"
      by (simp add: mult.left_commute)
    also have "\<dots> = sg * ((1 - s) * cross3 a1 b1 a2 + s * cross3 a1 b1 b2)"
      by (simp only: e)
    also have "\<dots> = (1 - s) * (sg * cross3 a1 b1 a2) + s * (sg * cross3 a1 b1 b2)"
      by (simp add: algebra_simps)
    finally show ?thesis .
  qed
  have "0 \<le> (snd b1 - snd a1) * (sg * (x_at y a1 b1 - x_at y a2 b2))"
    unfolding e' using n1 n2 by linarith
  then show "0 \<le> sg * (x_at y a1 b1 - x_at y a2 b2)"
    using h1(1) by (simp add: zero_le_mult_iff)
  assume eq: "x_at y a1 b1 = x_at y a2 b2"
  then have z: "(1 - s) * (sg * cross3 a1 b1 a2) + s * (sg * cross3 a1 b1 b2) = 0"
    using e' by simp
  have z1: "(1 - s) * (sg * cross3 a1 b1 a2) = 0" and z2: "s * (sg * cross3 a1 b1 b2) = 0"
    using z n1 n2 by linarith+
  have sg0: "sg \<noteq> 0" using sg by auto
  have "cross3 a1 b1 b2 = 0" using z2 p(1) sg0 by simp
  moreover have "y = snd b2 \<or> cross3 a1 b1 a2 = 0"
  proof (cases "s = 1")
    case True
    then show ?thesis using p(5) by simp
  next
    case False
    then show ?thesis using z1 sg0 by simp
  qed
  ultimately show "cross3 a1 b1 b2 = 0 \<and> (y = snd b2 \<or> cross3 a1 b1 a2 = 0)" by blast
qed

lemma on_segment_collinear:
  assumes c: "cross3 a b c = 0" and h: "snd a < snd b" and lo: "snd a \<le> snd c" and hi: "snd c \<le> snd b"
  shows "on_segment a b c"
proof -
  have "cross3 a b (fst c, snd c) = (snd b - snd a) * (x_at (snd c) a b - fst c)"
    using cross3_x_at [of a b "fst c" "snd c"] h by simp
  then have x: "fst c = x_at (snd c) a b" using c h by simp
  have "min (fst a) (fst b) \<le> x_at (snd c) a b \<and> x_at (snd c) a b \<le> max (fst a) (fst b)"
  proof (cases "snd a < snd c")
    case True
    then have "up_edge (snd c) a b" using hi by (simp add: up_edge_def)
    then show ?thesis using x_at_bounds [of "snd c" a b] by simp
  next
    case False
    then have "snd c = snd a" using lo by simp
    then show ?thesis by (simp add: x_at_def)
  qed
  then show ?thesis using c x lo hi h by (simp add: on_segment_def)
qed

lemma two_up_edges:
  assumes sg: "sg = 1 \<or> sg = - 1"
    and u1: "up_edge y a1 b1" and u2: "up_edge y a2 b2"
    and "0 \<le> sg * cross3 a1 b1 a2" "0 \<le> sg * cross3 a1 b1 b2"
    and "0 \<le> sg * cross3 a2 b2 a1" "0 \<le> sg * cross3 a2 b2 b1"
  shows "on_segment a1 b1 b2 \<or> on_segment a1 b1 a2 \<or> on_segment a2 b2 b1 \<or> on_segment a2 b2 a1"
proof -
  note A = up_pair_half [OF sg u1 u2 assms(4,5)]
  note B = up_pair_half [OF sg u2 u1 assms(6,7)]
  have "sg * (x_at y a1 b1 - x_at y a2 b2) = 0"
  proof -
    have "sg * (x_at y a2 b2 - x_at y a1 b1) = - (sg * (x_at y a1 b1 - x_at y a2 b2))"
      by (simp add: algebra_simps)
    then show ?thesis using A(1) B(1) by linarith
  qed
  then have eq: "x_at y a1 b1 = x_at y a2 b2" using sg by auto
  have a: "cross3 a1 b1 b2 = 0" "y = snd b2 \<or> cross3 a1 b1 a2 = 0"
    using A(2) [OF eq] by simp_all
  have b: "cross3 a2 b2 b1 = 0" "y = snd b1 \<or> cross3 a2 b2 a1 = 0"
    using B(2) [OF eq [symmetric]] by simp_all
  have h: "snd a1 < y" "y \<le> snd b1" "snd a2 < y" "y \<le> snd b2"
    using u1 u2 by (simp_all add: up_edge_def)
  show ?thesis
  proof (cases "y = snd b2")
    case True
    then have "on_segment a1 b1 b2"
      using on_segment_collinear [OF a(1)] h by simp
    then show ?thesis by blast
  next
    case n2: False
    show ?thesis
    proof (cases "y = snd b1")
      case True
      then have "on_segment a2 b2 b1"
        using on_segment_collinear [OF b(1)] h by simp
      then show ?thesis by blast
    next
      case n1: False
      have ca: "cross3 a1 b1 a2 = 0" "cross3 a2 b2 a1 = 0" using a(2) b(2) n1 n2 by simp_all
      show ?thesis
      proof (cases "snd a1 \<le> snd a2")
        case True
        then have "on_segment a1 b1 a2"
          using on_segment_collinear [OF ca(1)] h by simp
        then show ?thesis by blast
      next
        case False
        then have "on_segment a2 b2 a1"
          using on_segment_collinear [OF ca(2)] h by simp
        then show ?thesis by blast
      qed
    qed
  qed
qed

lemma cross3_flip: "cross3 b a c = - cross3 a b c"
  by (simp add: cross3_def algebra_simps)

lemma on_segment_flip: "on_segment b a c = on_segment a b c"
  by (auto simp: on_segment_def cross3_flip [of b a] min.commute max.commute)

lemma zip_distinct_snd:
  assumes "distinct ys" "(a, b) \<in> set (zip xs ys)" "(a', b) \<in> set (zip xs ys)"
  shows "a = a'"
proof -
  from assms(2) obtain i where i: "i < length xs" "i < length ys" "xs ! i = a" "ys ! i = b"
    by (auto simp: in_set_zip)
  from assms(3) obtain j where j: "j < length xs" "j < length ys" "xs ! j = a'" "ys ! j = b"
    by (auto simp: in_set_zip)
  have "i = j" using assms(1) i(2,4) j(2,4) by (metis nth_eq_iff_index_eq)
  then show ?thesis using i(3) j(3) by simp
qed

lemma zip_distinct_fst:
  assumes "distinct xs" "(a, b) \<in> set (zip xs ys)" "(a, b') \<in> set (zip xs ys)"
  shows "b = b'"
proof -
  from assms(2) obtain i where i: "i < length xs" "i < length ys" "xs ! i = a" "ys ! i = b"
    by (auto simp: in_set_zip)
  from assms(3) obtain j where j: "j < length xs" "j < length ys" "xs ! j = a" "ys ! j = b'"
    by (auto simp: in_set_zip)
  have "i = j" using assms(1) i(1,3) j(1,3) by (metis nth_eq_iff_index_eq)
  then show ?thesis using i(4) j(4) by simp
qed

lemma convex_ring_edge:
  assumes "convex_ring sg r" "(a, b) \<in> set (ring_edges r)" "c \<in> set r"
  shows "0 \<le> sg * cross3 a b c" "on_segment a b c \<Longrightarrow> c = a \<or> c = b"
  using assms unfolding convex_ring_def list_all_iff by auto

lemma up_edge_unique:
  assumes sg: "sg = 1 \<or> sg = - 1" and cv: "convex_ring sg r"
    and e1: "(a1, b1) \<in> set (ring_edges r)" and e2: "(a2, b2) \<in> set (ring_edges r)"
    and u1: "up_edge y a1 b1" and u2: "up_edge y a2 b2"
  shows "(a1, b1) = (a2, b2)"
proof -
  have d: "distinct r" "distinct (rotate1 r)" using cv by (simp_all add: convex_ring_def)
  have v: "a1 \<in> set r" "b1 \<in> set r" "a2 \<in> set r" "b2 \<in> set r"
    using ring_edges_vertices e1 e2 by blast+
  have h: "snd a1 < y" "y \<le> snd b1" "snd a2 < y" "y \<le> snd b2"
    using u1 u2 by (simp_all add: up_edge_def)
  have sameb: "b1 = b2 \<Longrightarrow> a1 = a2"
    using zip_distinct_snd [OF d(2), of a1 b1 r a2] e1 e2 by (simp add: ring_edges_def)
  have samea: "a1 = a2 \<Longrightarrow> b1 = b2"
    using zip_distinct_fst [OF d(1), of a1 b1 "rotate1 r" b2] e1 e2 by (simp add: ring_edges_def)
  from two_up_edges [OF sg u1 u2
      convex_ring_edge(1) [OF cv e1 v(3)] convex_ring_edge(1) [OF cv e1 v(4)]
      convex_ring_edge(1) [OF cv e2 v(1)] convex_ring_edge(1) [OF cv e2 v(2)]]
  consider "on_segment a1 b1 b2" | "on_segment a1 b1 a2" | "on_segment a2 b2 b1" | "on_segment a2 b2 a1"
    by blast
  then show ?thesis
  proof cases
    case 1
    then have "b2 = a1 \<or> b2 = b1" using convex_ring_edge(2) [OF cv e1 v(4)] by simp
    then show ?thesis using h sameb by auto
  next
    case 2
    then have "a2 = a1 \<or> a2 = b1" using convex_ring_edge(2) [OF cv e1 v(3)] by simp
    then show ?thesis using h samea by auto
  next
    case 3
    then have "b1 = a2 \<or> b1 = b2" using convex_ring_edge(2) [OF cv e2 v(2)] by simp
    then show ?thesis using h sameb by auto
  next
    case 4
    then have "a1 = a2 \<or> a1 = b2" using convex_ring_edge(2) [OF cv e2 v(1)] by simp
    then show ?thesis using h samea by auto
  qed
qed

lemma down_edge_unique:
  assumes sg: "sg = 1 \<or> sg = - 1" and cv: "convex_ring sg r"
    and e1: "(a1, b1) \<in> set (ring_edges r)" and e2: "(a2, b2) \<in> set (ring_edges r)"
    and u1: "up_edge y b1 a1" and u2: "up_edge y b2 a2"
  shows "(a1, b1) = (a2, b2)"
proof -
  have d: "distinct r" "distinct (rotate1 r)" using cv by (simp_all add: convex_ring_def)
  have v: "a1 \<in> set r" "b1 \<in> set r" "a2 \<in> set r" "b2 \<in> set r"
    using ring_edges_vertices e1 e2 by blast+
  have h: "snd b1 < y" "y \<le> snd a1" "snd b2 < y" "y \<le> snd a2"
    using u1 u2 by (simp_all add: up_edge_def)
  have sameb: "b1 = b2 \<Longrightarrow> a1 = a2"
    using zip_distinct_snd [OF d(2), of a1 b1 r a2] e1 e2 by (simp add: ring_edges_def)
  have samea: "a1 = a2 \<Longrightarrow> b1 = b2"
    using zip_distinct_fst [OF d(1), of a1 b1 "rotate1 r" b2] e1 e2 by (simp add: ring_edges_def)
  have sg': "- sg = 1 \<or> - sg = - 1" using sg by auto
  have f: "0 \<le> - sg * cross3 b a c" if "0 \<le> sg * cross3 a b c" for a b c
    using that by (simp add: cross3_flip [of b a])
  from two_up_edges [OF sg' u1 u2
      f [OF convex_ring_edge(1) [OF cv e1 v(4)]] f [OF convex_ring_edge(1) [OF cv e1 v(3)]]
      f [OF convex_ring_edge(1) [OF cv e2 v(2)]] f [OF convex_ring_edge(1) [OF cv e2 v(1)]]]
  consider "on_segment a1 b1 a2" | "on_segment a1 b1 b2" | "on_segment a2 b2 a1" | "on_segment a2 b2 b1"
    by (auto simp: on_segment_flip)
  then show ?thesis
  proof cases
    case 1
    then have "a2 = a1 \<or> a2 = b1" using convex_ring_edge(2) [OF cv e1 v(3)] by simp
    then show ?thesis using h samea by auto
  next
    case 2
    then have "b2 = a1 \<or> b2 = b1" using convex_ring_edge(2) [OF cv e1 v(4)] by simp
    then show ?thesis using h sameb by auto
  next
    case 3
    then have "a1 = a2 \<or> a1 = b2" using convex_ring_edge(2) [OF cv e2 v(1)] by simp
    then show ?thesis using h samea by auto
  next
    case 4
    then have "b1 = a2 \<or> b1 = b2" using convex_ring_edge(2) [OF cv e2 v(2)] by simp
    then show ?thesis using h sameb by auto
  qed
qed

lemma filter_at_most_one:
  assumes "distinct xs" "\<And>u v. u \<in> set xs \<Longrightarrow> v \<in> set xs \<Longrightarrow> P u \<Longrightarrow> P v \<Longrightarrow> u = v"
  shows "length (filter P xs) \<le> 1"
proof -
  have "distinct (filter P xs)" using assms(1) by simp
  then have "length (filter P xs) = card (set (filter P xs))"
    by (rule distinct_card [symmetric])
  moreover have "card (set (filter P xs)) \<le> Suc 0"
    using assms(2) by (subst card_le_Suc0_iff_eq) auto
  ultimately show ?thesis by simp
qed

lemma ring_edges_nth:
  assumes "m < length r"
  shows "(r ! m, r ! (Suc m mod length r)) \<in> set (ring_edges r)"
proof -
  have "ring_edges r ! m = (r ! m, r ! (Suc m mod length r))"
    using assms by (simp add: ring_edges_def nth_rotate1)
  moreover have "m < length (ring_edges r)" using assms by (simp add: ring_edges_def)
  ultimately show ?thesis by (metis nth_mem)
qed

lemma ring_propagate:
  assumes step: "\<And>a b. (a, b) \<in> set (ring_edges r) \<Longrightarrow> P a \<Longrightarrow> P b"
    and v: "v \<in> set r" "P v" and w: "w \<in> set r"
  shows "P w"
proof -
  let ?n = "length r"
  from v(1) obtain i where i: "i < ?n" "r ! i = v" by (auto simp: in_set_conv_nth)
  from w obtain j where j: "j < ?n" "r ! j = w" by (auto simp: in_set_conv_nth)
  have k: "P (r ! ((i + k) mod ?n))" for k
  proof (induction k)
    case 0
    then show ?case using i v(2) by simp
  next
    case (Suc k)
    have "0 < ?n" using i(1) by linarith
    then have m: "(i + k) mod ?n < ?n" by (rule mod_less_divisor)
    have "Suc ((i + k) mod ?n) mod ?n = (i + Suc k) mod ?n"
      by (simp add: mod_Suc_eq)
    then have "(r ! ((i + k) mod ?n), r ! ((i + Suc k) mod ?n)) \<in> set (ring_edges r)"
      using ring_edges_nth [OF m] by simp
    then show ?case using step Suc.IH by blast
  qed
  have "(i + (j + ?n - i)) mod ?n = j" using i(1) j(1) by simp
  then show ?thesis using k [of "j + ?n - i"] j(2) by simp
qed

lemma ring_edges_out:
  assumes "v \<in> set r"
  shows "\<exists>b. (v, b) \<in> set (ring_edges r)"
proof -
  from assms obtain i where i: "i < length r" "r ! i = v" by (auto simp: in_set_conv_nth)
  then show ?thesis using ring_edges_nth [OF i(1)] by blast
qed

lemma ring_edges_in:
  assumes "v \<in> set r"
  shows "\<exists>a. (a, v) \<in> set (ring_edges r)"
proof -
  have "v \<in> set (rotate1 r)" using assms by simp
  then obtain i where i: "i < length (rotate1 r)" "rotate1 r ! i = v"
    by (metis in_set_conv_nth)
  then have "ring_edges r ! i = (r ! i, v)" "i < length (ring_edges r)"
    by (simp_all add: ring_edges_def)
  then show ?thesis by (metis nth_mem)
qed

lemma sum_zip_diff:
  fixes g :: "'a \<Rightarrow> real"
  shows "length xs = length ys \<Longrightarrow>
    sum_list (map (\<lambda>(a, b). g a - g b) (zip xs ys)) = sum_list (map g xs) - sum_list (map g ys)"
  by (induction xs ys rule: list_induct2) auto

lemma sum_rotate1:
  fixes g :: "'a \<Rightarrow> real"
  shows "sum_list (map g (rotate1 r)) = sum_list (map g r)"
  by (cases r) auto

lemma sum_list_positive:
  fixes f :: "'a \<Rightarrow> real"
  shows "xs \<noteq> [] \<Longrightarrow> (\<And>e. e \<in> set xs \<Longrightarrow> 0 < f e) \<Longrightarrow> 0 < sum_list (map f xs)"
proof (induction xs)
  case Nil
  then show ?case by simp
next
  case (Cons e xs)
  show ?case
  proof (cases "xs = []")
    case True
    then show ?thesis using Cons.prems(2) by simp
  next
    case False
    have "0 < sum_list (map f xs)" using Cons.IH [OF False] Cons.prems(2) by simp
    moreover have "0 < f e" using Cons.prems(2) by simp
    ultimately show ?thesis by simp
  qed
qed

lemma no_descending_ring:
  fixes g :: "point \<Rightarrow> real"
  assumes "r \<noteq> []" "\<And>a b. (a, b) \<in> set (ring_edges r) \<Longrightarrow> g b < g a"
  shows False
proof -
  have "sum_list (map (\<lambda>(a, b). g a - g b) (ring_edges r)) = 0"
    unfolding ring_edges_def by (simp add: sum_zip_diff sum_rotate1)
  moreover have "0 < sum_list (map (\<lambda>(a, b). g a - g b) (ring_edges r))"
  proof (rule sum_list_positive)
    show "ring_edges r \<noteq> []" using assms(1) by (cases r) (simp_all add: ring_edges_def)
  next
    fix e assume e: "e \<in> set (ring_edges r)"
    obtain a b where ab: "e = (a, b)" by (rule prod.exhaust)
    have "g b < g a" using assms(2) [of a b] e ab by simp
    then show "0 < (case e of (a, b) \<Rightarrow> g a - g b)"
      unfolding ab by simp
  qed
  ultimately show False by simp
qed

lemma cross3_centered:
  "cross3 a b pt = (fst a - fst pt) * (snd b - snd pt) - (fst b - fst pt) * (snd a - snd pt)"
  by (simp add: cross3_def algebra_simps)

lemma slope_descends:
  assumes sg: "sg = 1 \<or> sg = - 1" and pos: "0 < sg * cross3 a b pt"
    and same: "0 < (snd a - snd pt) * (snd b - snd pt)"
  shows "sg * ((fst b - fst pt) / (snd b - snd pt)) < sg * ((fst a - fst pt) / (snd a - snd pt))"
proof -
  have nz: "snd a - snd pt \<noteq> 0" "snd b - snd pt \<noteq> 0" using same by auto
  have "(fst a - fst pt) / (snd a - snd pt) - (fst b - fst pt) / (snd b - snd pt)
      = cross3 a b pt / ((snd a - snd pt) * (snd b - snd pt))"
    using nz by (simp add: cross3_centered diff_frac_eq)
  then have "sg * ((fst a - fst pt) / (snd a - snd pt) - (fst b - fst pt) / (snd b - snd pt))
      = sg * (cross3 a b pt / ((snd a - snd pt) * (snd b - snd pt)))"
    by (rule arg_cong)
  then have "sg * ((fst a - fst pt) / (snd a - snd pt)) - sg * ((fst b - fst pt) / (snd b - snd pt))
      = (sg * cross3 a b pt) / ((snd a - snd pt) * (snd b - snd pt))"
    by (simp only: right_diff_distrib times_divide_eq_right)
  moreover have "0 < (sg * cross3 a b pt) / ((snd a - snd pt) * (snd b - snd pt))"
    using pos same by (rule divide_pos_pos)
  ultimately show ?thesis by linarith
qed

lemma inside_edge:
  assumes "strictly_inside sg pt r" "(a, b) \<in> set (ring_edges r)"
  shows "0 < sg * cross3 a b pt"
  using assms unfolding strictly_inside_def list_all_iff by auto

lemma inside_not_all_below:
  assumes sg: "sg = 1 \<or> sg = - 1" and ins: "strictly_inside sg pt r" and ne: "r \<noteq> []"
    and all: "\<forall>v \<in> set r. snd v < snd pt"
  shows False
proof (rule no_descending_ring [OF ne, of "\<lambda>v. sg * ((fst v - fst pt) / (snd v - snd pt))"])
  fix a b assume e: "(a, b) \<in> set (ring_edges r)"
  then have "snd a - snd pt < 0" "snd b - snd pt < 0"
    using ring_edges_vertices [OF e] all by auto
  then have "0 < (snd a - snd pt) * (snd b - snd pt)" by (rule mult_neg_neg)
  then show "sg * ((fst b - fst pt) / (snd b - snd pt)) < sg * ((fst a - fst pt) / (snd a - snd pt))"
    using slope_descends [OF sg inside_edge [OF ins e]] by simp
qed

lemma inside_not_all_above:
  assumes sg: "sg = 1 \<or> sg = - 1" and ins: "strictly_inside sg pt r" and ne: "r \<noteq> []"
    and all: "\<forall>v \<in> set r. snd pt \<le> snd v"
  shows False
proof -
  have strict: "snd pt < snd v" if v: "v \<in> set r" for v
  proof (rule ccontr)
    assume "\<not> snd pt < snd v"
    then have y: "snd v = snd pt" using all v by auto
    obtain b where b: "(v, b) \<in> set (ring_edges r)" using ring_edges_out [OF v] by blast
    obtain a where a: "(a, v) \<in> set (ring_edges r)" using ring_edges_in [OF v] by blast
    have hb: "0 \<le> snd b - snd pt" using ring_edges_vertices [OF b] all by auto
    have ha: "0 \<le> snd a - snd pt" using ring_edges_vertices [OF a] all by auto
    have 1: "0 < (sg * (fst v - fst pt)) * (snd b - snd pt)"
      using inside_edge [OF ins b] y by (simp add: cross3_centered mult.assoc)
    have 2: "0 < - ((sg * (fst v - fst pt)) * (snd a - snd pt))"
      using inside_edge [OF ins a] y by (simp add: cross3_centered algebra_simps)
    from 1 hb have "0 < sg * (fst v - fst pt)"
      by (metis less_eq_real_def mult_zero_right not_less zero_less_mult_pos2)
    then have "0 \<le> (sg * (fst v - fst pt)) * (snd a - snd pt)"
      using ha by (simp add: mult_nonneg_nonneg)
    then show False using 2 by linarith
  qed
  show False
  proof (rule no_descending_ring [OF ne, of "\<lambda>v. sg * ((fst v - fst pt) / (snd v - snd pt))"])
    fix a b assume e: "(a, b) \<in> set (ring_edges r)"
    then have "0 < snd a - snd pt" "0 < snd b - snd pt"
      using ring_edges_vertices [OF e] strict by auto
    then have "0 < (snd a - snd pt) * (snd b - snd pt)" by (rule mult_pos_pos)
    then show "sg * ((fst b - fst pt) / (snd b - snd pt)) < sg * ((fst a - fst pt) / (snd a - snd pt))"
      using slope_descends [OF sg inside_edge [OF ins e]] by simp
  qed
qed

lemma inside_up_edge:
  assumes sg: "sg = 1 \<or> sg = - 1" and ins: "strictly_inside sg pt r" and ne: "r \<noteq> []"
  shows "\<exists>a b. (a, b) \<in> set (ring_edges r) \<and> up_edge (snd pt) a b"
proof (rule ccontr)
  assume no: "\<not> ?thesis"
  have step: "snd b < snd pt" if "(a, b) \<in> set (ring_edges r)" "snd a < snd pt" for a b
    using no that unfolding up_edge_def by (metis not_le)
  show False
  proof (cases "\<exists>v \<in> set r. snd v < snd pt")
    case True
    then obtain v where v: "v \<in> set r" "snd v < snd pt" by blast
    have "snd w < snd pt" if w: "w \<in> set r" for w
    proof (rule ring_propagate [where P = "\<lambda>q. snd q < snd pt" and r = r and v = v])
      fix a b assume "(a, b) \<in> set (ring_edges r)" "snd a < snd pt"
      then show "snd b < snd pt" by (rule step)
    qed (use v w in simp_all)
    then have "\<forall>w \<in> set r. snd w < snd pt" by blast
    then show False using inside_not_all_below [OF sg ins ne] by blast
  next
    case False
    then have "\<forall>v \<in> set r. snd pt \<le> snd v" by auto
    then show False using inside_not_all_above [OF sg ins ne] by blast
  qed
qed

lemma inside_down_edge:
  assumes sg: "sg = 1 \<or> sg = - 1" and ins: "strictly_inside sg pt r" and ne: "r \<noteq> []"
  shows "\<exists>a b. (a, b) \<in> set (ring_edges r) \<and> up_edge (snd pt) b a"
proof (rule ccontr)
  assume no: "\<not> ?thesis"
  have step: "snd pt \<le> snd b" if "(a, b) \<in> set (ring_edges r)" "snd pt \<le> snd a" for a b
    using no that unfolding up_edge_def by (metis not_le)
  show False
  proof (cases "\<exists>v \<in> set r. snd pt \<le> snd v")
    case True
    then obtain v where v: "v \<in> set r" "snd pt \<le> snd v" by blast
    have "snd pt \<le> snd w" if w: "w \<in> set r" for w
    proof (rule ring_propagate [where P = "\<lambda>q. snd pt \<le> snd q" and r = r and v = v])
      fix a b assume "(a, b) \<in> set (ring_edges r)" "snd pt \<le> snd a"
      then show "snd pt \<le> snd b" by (rule step)
    qed (use v w in simp_all)
    then have "\<forall>w \<in> set r. snd pt \<le> snd w" by blast
    then show False using inside_not_all_above [OF sg ins ne] by blast
  next
    case False
    then have "\<forall>v \<in> set r. snd v < snd pt" by auto
    then show False using inside_not_all_below [OF sg ins ne] by blast
  qed
qed

lemma crosses_same: "\<not> crosses pt c c"
  by (simp add: crosses_def)

lemma crossings_repeat_last: "crossings pt a (bs @ [c, c]) = crossings pt a (bs @ [c])"
  by (induction bs arbitrary: a) (simp_all add: crosses_same)

lemma point_in_polygon_open_ring:
  "point_in_polygon pt poly = point_in_polygon pt (open_ring poly)"
proof (cases "1 < length poly \<and> last poly = hd poly")
  case False
  then have "open_ring poly = poly" unfolding open_ring_def by (rule if_not_P)
  then show ?thesis by simp
next
  case True
  then obtain v vs where poly: "poly = v # vs" "vs \<noteq> []"
    by (cases poly) auto
  have l: "last vs = v" using True poly by simp
  have vs: "vs = butlast vs @ [v]" using poly(2) l by (metis append_butlast_last_id)
  have o: "open_ring poly = v # butlast vs"
    using True poly by (simp add: open_ring_def)
  have "crossings pt v (rotate1 poly) = crossings pt v (butlast vs @ [v, v])"
    using vs by (simp add: poly(1)) (metis append.assoc append_Cons append_Nil)
  also have "\<dots> = crossings pt v (rotate1 (v # butlast vs))"
    by (simp add: crossings_repeat_last)
  finally show ?thesis
    using point_in_polygon_crossings [of poly pt]
      point_in_polygon_crossings [of "v # butlast vs" pt] o poly(1)
    by simp
qed

lemma inside_convex_ring:
  assumes sg: "sg = 1 \<or> sg = - 1" and cv: "convex_ring sg r" and ins: "strictly_inside sg pt r"
    and hl: "rounding_harmless pt r"
  shows "point_in_polygon pt r = Inr True"
proof -
  let ?E = "ring_edges r"
  let ?Q = "\<lambda>(a, b). if sg = 1 then up_edge (snd pt) a b else up_edge (snd pt) b a"
  have ne: "r \<noteq> []" using cv by (auto simp: convex_ring_def)
  have dE: "distinct ?E"
    using cv unfolding ring_edges_def convex_ring_def by (simp add: distinct_zipI1)
  have f: "filter (\<lambda>(u, v). crosses_exact pt u v) ?E = filter ?Q ?E"
  proof (rule filter_cong [OF refl])
    fix e assume e: "e \<in> set ?E"
    obtain a b where ab: "e = (a, b)" by (rule prod.exhaust)
    show "(case e of (u, v) \<Rightarrow> crosses_exact pt u v) = ?Q e"
      unfolding ab using crosses_inside [OF sg inside_edge [OF ins e [unfolded ab]]] by simp
  qed
  have le: "length (filter ?Q ?E) \<le> 1"
  proof (rule filter_at_most_one [OF dE])
    fix u v assume u: "u \<in> set ?E" and v: "v \<in> set ?E" and qu: "?Q u" and qv: "?Q v"
    obtain a1 b1 where u': "u = (a1, b1)" by (rule prod.exhaust)
    obtain a2 b2 where v': "v = (a2, b2)" by (rule prod.exhaust)
    show "u = v"
    proof (cases "sg = 1")
      case True
      then have "up_edge (snd pt) a1 b1" "up_edge (snd pt) a2 b2"
        using qu qv u' v' by simp_all
      then show ?thesis
        using up_edge_unique [OF sg cv u [unfolded u'] v [unfolded v']] u' v' by simp
    next
      case False
      then have "up_edge (snd pt) b1 a1" "up_edge (snd pt) b2 a2"
        using qu qv u' v' by simp_all
      then show ?thesis
        using down_edge_unique [OF sg cv u [unfolded u'] v [unfolded v']] u' v' by simp
    qed
  qed
  have "\<exists>e \<in> set ?E. ?Q e"
  proof (cases "sg = 1")
    case True
    then show ?thesis using inside_up_edge [OF sg ins ne] by auto
  next
    case False
    then show ?thesis using inside_down_edge [OF sg ins ne] by auto
  qed
  then have "filter ?Q ?E \<noteq> []" by (simp add: filter_empty_conv)
  then have "length (filter ?Q ?E) = 1" using le by (cases "filter ?Q ?E") auto
  then show ?thesis using point_in_polygon_edges_exact [OF ne hl] f by simp
qed

subsection \<open>Evaluating the rounding\<close>

lemma floor_log2:
  assumes "2 ^ 52 \<le> \<bar>v\<bar> * 2 ^ n" "\<bar>v\<bar> * 2 ^ n < 2 ^ 53"
  shows "\<lfloor>log 2 \<bar>v\<bar>\<rfloor> = 52 - int n"
proof (rule floor_unique)
  have pos: "0 < \<bar>v\<bar>" using assms(1) by (smt (verit) mult_eq_0_iff zero_less_power)
  have p: "(2::real) powr (of_int (52 - int n)) = 2 ^ 52 / 2 ^ n"
    by (simp add: powr_diff powr_realpow)
  have q: "(2::real) powr (of_int (52 - int n) + 1) = 2 ^ 53 / 2 ^ n"
    by (simp add: powr_diff powr_add powr_realpow)
  have "2 ^ 52 / 2 ^ n \<le> \<bar>v\<bar>" using assms(1) by (simp add: divide_le_eq)
  then show "of_int (52 - int n) \<le> log 2 \<bar>v\<bar>"
    using pos p by (simp add: le_log_iff)
  have "\<bar>v\<bar> < 2 ^ 53 / 2 ^ n" using assms(2) by (simp add: less_divide_eq)
  then show "log 2 \<bar>v\<bar> < of_int (52 - int n) + 1"
    using pos q by (simp add: log_less_iff)
qed

text \<open>
  For \<open>v\<close> in the binade whose unit in the last place is \<open>2 ^ (- n)\<close>, \<open>fl v\<close> is the
  multiple of \<open>2 ^ (- n)\<close> nearest to \<open>v\<close>.
\<close>

lemma fl_eval:
  assumes "2 ^ 52 \<le> \<bar>v\<bar> * 2 ^ n" "\<bar>v\<bar> * 2 ^ n < 2 ^ 53" "n \<le> 1074"
  shows "fl v = of_int (rne (v * 2 ^ n)) / 2 ^ n"
proof -
  have nz: "v \<noteq> 0" using assms(1) by auto
  have e: "max \<lfloor>log 2 \<bar>v\<bar>\<rfloor> (- 1022) = 52 - int n"
    using floor_log2 [OF assms(1,2)] assms(3) by simp
  have u: "(2::real) powr (of_int (52 - int n - 52)) = 1 / 2 ^ n"
    by (simp add: powr_minus powr_realpow divide_simps)
  show ?thesis
    unfolding fl_def Let_def e u using nz by simp
qed

lemma fl_0: "fl 0 = 0"
  by (simp add: fl_def)

lemma fl_small:
  "fl 1 = 1" "fl 2 = 2" "fl 6 = 6" "fl 7 = 7" "fl 8 = 8" "fl 16 = 16" "fl 21 = 21"
  "fl 112 = 112" "fl (- 1) = - 1" "fl (- 2) = - 2" "fl (- 8) = - 8" "fl (- 16) = - 16"
proof -
  show "fl 1 = 1" by (subst fl_eval [where n = 52]) (simp_all add: rne_def)
  show "fl 2 = 2" by (subst fl_eval [where n = 51]) (simp_all add: rne_def)
  show "fl 6 = 6" by (subst fl_eval [where n = 50]) (simp_all add: rne_def)
  show "fl 7 = 7" by (subst fl_eval [where n = 50]) (simp_all add: rne_def)
  show "fl 8 = 8" by (subst fl_eval [where n = 49]) (simp_all add: rne_def)
  show "fl 16 = 16" by (subst fl_eval [where n = 48]) (simp_all add: rne_def)
  show "fl 21 = 21" by (subst fl_eval [where n = 48]) (simp_all add: rne_def)
  show "fl 112 = 112" by (subst fl_eval [where n = 46]) (simp_all add: rne_def)
  show "fl (- 1) = - 1" by (subst fl_eval [where n = 52]) (simp_all add: rne_def)
  show "fl (- 2) = - 2" by (subst fl_eval [where n = 51]) (simp_all add: rne_def)
  show "fl (- 8) = - 8" by (subst fl_eval [where n = 49]) (simp_all add: rne_def)
  show "fl (- 16) = - 16" by (subst fl_eval [where n = 48]) (simp_all add: rne_def)
qed

lemma finite_double_small: "\<bar>z\<bar> \<le> 2 ^ 53 \<Longrightarrow> finite_double z"
proof -
  assume "\<bar>z\<bar> \<le> 2 ^ 53"
  moreover have "(2::real) ^ 53 < 2 ^ 1023" by (rule power_strict_increasing) simp_all
  ultimately show ?thesis unfolding finite_double_def by linarith
qed

text \<open>The edge from \<open>(8, 0)\<close> to \<open>(0, 8)\<close> at height 2.\<close>

lemma corner_triangle_x: "rounded_x_at 2 (8, 0) (0, 8) = 6" "x_at 2 (8, 0) (0, 8) = 6"
  by (simp_all add: rounded_x_at_def x_at_def fadd_def fsub_def fmul_def fdiv_def fl_small)

lemma corner_triangle_finite: "no_overflow 2 (8, 0) (0, 8)"
  by (simp add: no_overflow_def fsub_def fmul_def fdiv_def fl_small finite_double_small)

lemma corner_triangle_open: "open_ring corner_triangle = [(0, 0), (8, 0), (0, 8)]"
  by (simp add: open_ring_def corner_triangle_def)

lemma corner_triangle_convex: "convex_ring 1 (open_ring corner_triangle)"
  unfolding corner_triangle_open
  by (simp add: convex_ring_def ring_edges_def cross3_def on_segment_def)

lemma corner_triangle_inside: "strictly_inside 1 (1, 2) (open_ring corner_triangle)"
  unfolding corner_triangle_open
  by (simp add: strictly_inside_def ring_edges_def cross3_def)

lemma corner_triangle_harmless:
  "rounding_harmless (1, 2) (open_ring corner_triangle)"
  "rounding_harmless (- 1, 2) corner_triangle"
  unfolding corner_triangle_open
  by (simp_all add: rounding_harmless_def ring_edges_def corner_triangle_def up_edge_def
        corner_triangle_x corner_triangle_finite)

lemma corner_triangle_left: "left_of_bbox (- 1, 2) corner_triangle"
  by (simp add: left_of_bbox_def corner_triangle_def)

text \<open>The edge from \<open>(- 6, 0)\<close> to \<open>(10, 21)\<close> at height 7: \<open>16 / 3\<close> is rounded down.\<close>

lemma fl_16_3: "fl (16 / 3) = 6004799503160661 / 2 ^ 50"
  by (subst fl_eval [where n = 50]) (simp_all add: rne_def)

lemma fl_wide_sum: "fl (6004799503160661 / 2 ^ 50 + - 6) = - 750599937895083 / 2 ^ 50"
  by (subst fl_eval [where n = 53]) (simp_all add: rne_def)

lemma wide_triangle_x:
  "rounded_x_at 7 (- 6, 0) (10, 21) = - 750599937895083 / 2 ^ 50"
proof -
  have "rounded_x_at 7 (- 6, 0) (10, 21) = fl (fl (fl 112 / fl 21) + - 6)"
    by (simp add: rounded_x_at_def fadd_def fsub_def fmul_def fdiv_def fl_small)
  also have "\<dots> = fl (fl (16 / 3) + - 6)" by (simp add: fl_small)
  also have "\<dots> = - 750599937895083 / 2 ^ 50" by (simp only: fl_16_3 fl_wide_sum)
  finally show ?thesis .
qed

lemma rne_cases: "rne z = \<lfloor>z\<rfloor> \<or> rne z = \<lfloor>z\<rfloor> + 1"
  unfolding rne_def Let_def by simp

lemma rne_nonzero:
  assumes "1 \<le> \<bar>z\<bar>"
  shows "rne z \<noteq> 0"
proof (cases "0 \<le> z")
  case True
  then have "1 \<le> \<lfloor>z\<rfloor>" using assms by (simp add: le_floor_iff)
  then show ?thesis using rne_cases [of z] by linarith
next
  case False
  then have z: "z \<le> - 1" using assms by simp
  then have f: "\<lfloor>z\<rfloor> \<le> - 1" by (simp add: floor_le_iff)
  show ?thesis
  proof (cases "\<lfloor>z\<rfloor> = - 1")
    case True
    have "z - of_int \<lfloor>z\<rfloor> \<le> 0" unfolding True using z by simp
    then have "rne z = \<lfloor>z\<rfloor>" unfolding rne_def Let_def by simp
    then show ?thesis using True by simp
  next
    case False
    then have "\<lfloor>z\<rfloor> + 1 < 0" using f by simp
    then show ?thesis using rne_cases [of z] by linarith
  qed
qed

lemma fl_nonzero:
  assumes "2 powr (- 1074) \<le> \<bar>v\<bar>"
  shows "fl v \<noteq> 0"
proof -
  have pos: "0 < \<bar>v\<bar>" using assms by (smt (verit) powr_gt_zero)
  then have nz: "v \<noteq> 0" by simp
  define e where "e = max \<lfloor>log 2 \<bar>v\<bar>\<rfloor> (- 1022)"
  define ulp :: real where "ulp = 2 powr (of_int (e - 52))"
  have up: "0 < ulp" unfolding ulp_def by simp
  have "ulp \<le> \<bar>v\<bar>"
  proof (cases "- 1022 \<le> \<lfloor>log 2 \<bar>v\<bar>\<rfloor>")
    case True
    then have e: "e = \<lfloor>log 2 \<bar>v\<bar>\<rfloor>" unfolding e_def by simp
    have "of_int (e - 52) \<le> log 2 \<bar>v\<bar>" unfolding e by linarith
    then show ?thesis unfolding ulp_def using pos by (simp add: le_log_iff)
  next
    case False
    then have "e = - 1022" unfolding e_def by simp
    then show ?thesis unfolding ulp_def using assms by simp
  qed
  then have "1 \<le> \<bar>v / ulp\<bar>" using up by (simp add: le_divide_eq)
  then have "rne (v / ulp) \<noteq> 0" by (rule rne_nonzero)
  then have "of_int (rne (v / ulp)) * ulp \<noteq> 0" using up by simp
  then show ?thesis unfolding fl_def Let_def e_def [symmetric] ulp_def [symmetric] using nz by simp
qed

lemma fl_grid: "\<exists>k::int. fl v = of_int k * 2 powr (- 1074)"
proof (cases "v = 0")
  case True
  then have "fl v = of_int 0 * 2 powr (- 1074)" by (simp add: fl_def)
  then show ?thesis by blast
next
  case False
  define e where "e = max \<lfloor>log 2 \<bar>v\<bar>\<rfloor> (- 1022)"
  have e: "- 1022 \<le> e" unfolding e_def by simp
  have "(2::real) powr (of_int (e - 52)) = 2 powr (of_int (e + 1022) + (- 1074))"
    by simp
  also have "\<dots> = 2 powr (of_int (e + 1022)) * 2 powr (- 1074)"
    by (rule powr_add)
  also have "2 powr (of_int (e + 1022)) = (2::real) ^ nat (e + 1022)"
  proof -
    have "(of_int (e + 1022) :: real) = real (nat (e + 1022))" using e by simp
    then show ?thesis by (simp only: powr_realpow zero_less_numeral)
  qed
  finally have u: "(2::real) powr (of_int (e - 52)) = 2 ^ nat (e + 1022) * 2 powr (- 1074)" .
  have "fl v = of_int (rne (v / 2 powr (of_int (e - 52)))) * 2 powr (of_int (e - 52))"
    unfolding fl_def Let_def e_def using False by simp
  also have "\<dots> = of_int (rne (v / 2 powr (of_int (e - 52))) * 2 ^ nat (e + 1022))
                    * 2 powr (- 1074)"
    by (subst (2) u) simp
  finally show ?thesis by blast
qed

text \<open>
  Two doubles that differ have a difference that is not rounded to 0, so the
  division in the loop of \<open>point_in_polygon\<close> does not divide by 0.
\<close>

lemma double_diff_nonzero:
  assumes "is_double a" "is_double b" "a \<noteq> b"
  shows "fsub a b \<noteq> 0"
proof -
  obtain k :: int where k: "a = of_int k * 2 powr (- 1074)"
    using fl_grid [of a] assms(1) unfolding is_double_def by auto
  obtain l :: int where l: "b = of_int l * 2 powr (- 1074)"
    using fl_grid [of b] assms(2) unfolding is_double_def by auto
  have "k \<noteq> l" using assms(3) k l by auto
  then have "1 \<le> \<bar>k - l\<bar>" by simp
  then have "(1::real) \<le> \<bar>of_int (k - l)\<bar>" by (metis of_int_1_le_iff of_int_abs)
  moreover have "a - b = of_int (k - l) * 2 powr (- 1074)"
    unfolding k l by (simp add: algebra_simps)
  ultimately have "2 powr (- 1074) \<le> \<bar>a - b\<bar>"
    by (simp add: abs_mult mult_le_cancel_right1)
  then show ?thesis unfolding fsub_def by (rule fl_nonzero)
qed

text \<open>
  On a polygon whose edges are all horizontal or vertical the loop never compares
  \<open>x\<close> with \<open>xinters\<close>.
\<close>

lemma rectilinear_harmless:
  assumes "rectilinear r"
  shows "rounding_harmless pt r"
  using assms unfolding rectilinear_def rounding_harmless_def list_all_iff up_edge_def
  by fastforce

text \<open>
  Claim C5, as amended.  A convex polygon is given as a ring of at least 3 distinct
  vertices in either orientation, optionally closed by a repeat of its first vertex;
  every vertex lies on the inner side of (or on) the line of every edge, and no
  vertex lies inside an edge.  A point is strictly inside when it lies strictly on
  the inner side of the line of every edge.  For every such polygon and point,
  \<open>point_in_polygon\<close> returns true, provided that on every edge for which the loop
  compares \<open>x\<close> with \<open>xinters\<close> the computation of \<open>xinters\<close> stays finite and its
  rounding does not change the outcome of the comparison.  For every non-empty
  polygon, \<open>point_in_polygon\<close> returns false for every point strictly right of,
  above or below all of its vertices, and, under the same proviso on the rounding,
  for every point strictly left of all of its vertices.
\<close>

theorem point_in_polygon_convex_and_bbox:
  "((sg = 1 \<or> sg = - 1) \<and> convex_ring sg (open_ring poly)
      \<and> strictly_inside sg pt (open_ring poly) \<and> rounding_harmless pt (open_ring poly)
      \<longrightarrow> point_in_polygon pt poly = Inr True)
   \<and> (poly \<noteq> [] \<and> (beside_bbox q poly \<or> left_of_bbox q poly \<and> rounding_harmless q poly)
      \<longrightarrow> point_in_polygon q poly = Inr False)"
  using inside_convex_ring [of sg "open_ring poly" pt] point_in_polygon_open_ring [of pt poly]
    point_in_polygon_beside_bbox [of poly q] point_in_polygon_left_of_bbox [of poly q]
  by auto

theorem point_in_polygon_convex_and_bbox_witness:
  "convex_ring 1 (open_ring corner_triangle)
   \<and> strictly_inside 1 (1, 2) (open_ring corner_triangle)
   \<and> rounding_harmless (1, 2) (open_ring corner_triangle)
   \<and> point_in_polygon (1, 2) corner_triangle = Inr True
   \<and> left_of_bbox (- 1, 2) corner_triangle
   \<and> rounding_harmless (- 1, 2) corner_triangle
   \<and> point_in_polygon (- 1, 2) corner_triangle = Inr False"
  using point_in_polygon_convex_and_bbox [of 1 corner_triangle "(1, 2)" "(- 1, 2)"]
    corner_triangle_convex corner_triangle_inside corner_triangle_harmless corner_triangle_left
  by (simp add: corner_triangle_def)

text \<open>
  The claim as stated fails in both halves.  The point
  \<open>(- 0.6666666666666669, 7)\<close> is strictly inside the convex triangle
  \<open>wide_triangle\<close>, less than \<open>2 ^ (- 52)\<close> left of its edge from \<open>(- 6, 0)\<close> to
  \<open>(10, 21)\<close>; the quotient \<open>112 / 21\<close> is rounded down, \<open>xinters\<close> comes out left of
  the point, and the result is false.  The point \<open>(0.09999999999999999, 1)\<close> is
  strictly left of all vertices of \<open>sliver_triangle\<close>, whose leftmost vertex is
  \<open>(0.1, 1)\<close>; on the edge from \<open>(1, 0)\<close> to that vertex \<open>xinters\<close> comes out left of the
  point, only the edge from \<open>(2, 1)\<close> to \<open>(1, 0)\<close> flips the flag, and the result is
  true.
\<close>

lemma wide_triangle_convex: "convex_ring 1 (open_ring wide_triangle)"
  by (simp add: open_ring_def wide_triangle_def convex_ring_def ring_edges_def cross3_def
        on_segment_def)

lemma wide_triangle_inside: "strictly_inside 1 near_edge_point (open_ring wide_triangle)"
  by (simp add: open_ring_def wide_triangle_def near_edge_point_def strictly_inside_def
        ring_edges_def cross3_def)

lemma wide_triangle_result: "point_in_polygon near_edge_point wide_triangle = Inr False"
proof -
  have e: "ring_edges wide_triangle
      = [((- 6, 0), (10, 21)), ((10, 21), (- 56, 21)), ((- 56, 21), (- 6, 0))]"
    by (simp add: ring_edges_def wide_triangle_def)
  have 1: "\<not> crosses near_edge_point (- 6, 0) (10, 21)"
    by (simp add: crosses_def near_edge_point_def wide_triangle_x)
  have 2: "\<not> crosses near_edge_point (10, 21) (- 56, 21)"
    by (simp add: crosses_def near_edge_point_def)
  have 3: "\<not> crosses near_edge_point (- 56, 21) (- 6, 0)"
    by (simp add: crosses_def near_edge_point_def)
  have "wide_triangle \<noteq> []" by (simp add: wide_triangle_def)
  from point_in_polygon_edges [OF this, of near_edge_point] show ?thesis
    unfolding e using 1 2 3 by simp
qed

lemma sliver_triangle_x:
  "rounded_x_at 1 (1, 0) (3602879701896397 / 2 ^ 55, 1) = 900719925474099 / 2 ^ 53"
proof -
  have a: "fl (3602879701896397 / 2 ^ 55 - 1) = - 8106479329266893 / 2 ^ 53"
    by (subst fl_eval [where n = 53]) (simp_all add: rne_def)
  have b: "fl (- 8106479329266893 / 2 ^ 53) = - 8106479329266893 / 2 ^ 53"
    by (subst fl_eval [where n = 53]) (simp_all add: rne_def)
  have c: "fl (- 8106479329266893 / 2 ^ 53 + 1) = 900719925474099 / 2 ^ 53"
    by (subst fl_eval [where n = 56]) (simp_all add: rne_def)
  have "rounded_x_at 1 (1, 0) (3602879701896397 / 2 ^ 55, 1)
      = fl (fl (fl (fl (1 - 0) * fl (3602879701896397 / 2 ^ 55 - 1)) / fl (1 - 0)) + 1)"
    by (simp only: rounded_x_at_def fadd_def fsub_def fmul_def fdiv_def fst_conv snd_conv)
  also have "\<dots> = fl (fl (fl (fl (3602879701896397 / 2 ^ 55 - 1))) + 1)"
    by (simp only: diff_zero fl_small mult_1 div_by_1)
  also have "\<dots> = 900719925474099 / 2 ^ 53"
    by (simp only: a b c)
  finally show ?thesis .
qed

lemma sliver_triangle_x_closing: "rounded_x_at 1 (2, 1) (1, 0) = 2"
  by (simp add: rounded_x_at_def fadd_def fsub_def fmul_def fdiv_def fl_0 fl_small)

lemma sliver_triangle_outside: "outside_bbox near_corner_point sliver_triangle"
  by (simp add: outside_bbox_def left_of_bbox_def near_corner_point_def sliver_triangle_def)

lemma sliver_triangle_result: "point_in_polygon near_corner_point sliver_triangle = Inr True"
proof -
  have e: "ring_edges sliver_triangle
      = [((1, 0), (3602879701896397 / 2 ^ 55, 1)), ((3602879701896397 / 2 ^ 55, 1), (2, 1)),
         ((2, 1), (1, 0))]"
    by (simp add: ring_edges_def sliver_triangle_def)
  have 1: "\<not> crosses near_corner_point (1, 0) (3602879701896397 / 2 ^ 55, 1)"
    unfolding crosses_def near_corner_point_def snd_conv fst_conv sliver_triangle_x by simp
  have 2: "\<not> crosses near_corner_point (3602879701896397 / 2 ^ 55, 1) (2, 1)"
    by (simp add: crosses_def near_corner_point_def)
  have 3: "crosses near_corner_point (2, 1) (1, 0)"
    by (simp add: crosses_def near_corner_point_def sliver_triangle_x_closing)
  have "sliver_triangle \<noteq> []" by (simp add: sliver_triangle_def)
  from point_in_polygon_edges [OF this, of near_corner_point] show ?thesis
    unfolding e using 1 2 3 by simp
qed

theorem point_in_polygon_rounding_misclassifies:
  "convex_ring 1 (open_ring wide_triangle)
   \<and> strictly_inside 1 near_edge_point (open_ring wide_triangle)
   \<and> point_in_polygon near_edge_point wide_triangle = Inr False
   \<and> sliver_triangle \<noteq> []
   \<and> outside_bbox near_corner_point sliver_triangle
   \<and> point_in_polygon near_corner_point sliver_triangle = Inr True"
  using wide_triangle_convex wide_triangle_inside wide_triangle_result
    sliver_triangle_outside sliver_triangle_result
  by (simp add: sliver_triangle_def)

end
